theory Spec2Isabelle
  imports Main "HOL-Library.Sublist" "HOL-Library.Multiset" "HOL-Library.Char_ord"
    "HOL-Library.List_Lexorder"
begin

section \<open>The line diff engine (diff-view component)\<close>

subsection \<open>Edit operations\<close>

text \<open>
  \<^verbatim>\<open>type Op = { type: "context"; left; right } | { type: "del"; left } | { type: "add"; right }\<close>
\<close>

datatype Op = Context string string | Del string | Add string

subsection \<open>Splitting a text into lines\<close>

text \<open>
  \<^verbatim>\<open>leftText.split("\n")\<close>: the pieces between line feeds. The empty text gives one
  empty line, and a text that ends in a line feed gives a last, empty line.
\<close>

definition newline :: char where
  "newline = CHR 0x0A"

fun split_lines :: "string \<Rightarrow> string list" where
  "split_lines [] = [[]]"
| "split_lines (c # cs) =
     (if c = newline then [] # split_lines cs
      else (case split_lines cs of
              l # ls \<Rightarrow> (c # l) # ls
            | [] \<Rightarrow> [[c]]))"

subsection \<open>The table of the lengths of longest common subsequences\<close>

text \<open>
  \<^verbatim>\<open>Array.from({ length: m + 1 }, () => Array.from({ length: n + 1 }, () => 0))\<close>
\<close>

definition init_table :: "nat \<Rightarrow> nat \<Rightarrow> nat list list" where
  "init_table m n = replicate (m + 1) (replicate (n + 1) 0)"

text \<open>
  The inner loop \<^verbatim>\<open>for (let j = n - 1; j >= 0; j--)\<close> for a fixed row \<open>i\<close>. The
  counter of the recursion is \<open>j + 1\<close>, so that the loop ends when it reaches 0.
\<close>

fun fill_row :: "string list \<Rightarrow> string list \<Rightarrow> nat \<Rightarrow> nat \<Rightarrow> nat list list \<Rightarrow> nat list list" where
  "fill_row a b i 0 lcs = lcs"
| "fill_row a b i (Suc j) lcs =
     fill_row a b i j
       (if a ! i = b ! j
        then lcs[i := (lcs ! i)[j := lcs ! (i + 1) ! (j + 1) + 1]]
        else lcs[i := (lcs ! i)[j := max (lcs ! (i + 1) ! j) (lcs ! i ! (j + 1))]])"

text \<open>
  The outer loop \<^verbatim>\<open>for (let i = m - 1; i >= 0; i--)\<close>, with the counter \<open>i + 1\<close>.
\<close>

fun fill_table :: "string list \<Rightarrow> string list \<Rightarrow> nat \<Rightarrow> nat \<Rightarrow> nat list list \<Rightarrow> nat list list" where
  "fill_table a b 0 n lcs = lcs"
| "fill_table a b (Suc i) n lcs = fill_table a b i n (fill_row a b i n lcs)"

subsection \<open>The walk through the table\<close>

text \<open>
  \<^verbatim>\<open>while (i < m && j < n) { ... }\<close>: the state of the loop is \<open>(ops, i, j)\<close>, and
  \<^verbatim>\<open>ops.push(x)\<close> appends at the end.
\<close>

function main_loop ::
  "string list \<Rightarrow> string list \<Rightarrow> nat list list \<Rightarrow> Op list \<Rightarrow> nat \<Rightarrow> nat \<Rightarrow> Op list \<times> nat \<times> nat" where
  "main_loop a b lcs ops i j =
     (if i < length a \<and> j < length b then
        (if a ! i = b ! j
         then main_loop a b lcs (ops @ [Context (a ! i) (b ! j)]) (i + 1) (j + 1)
         else if lcs ! (i + 1) ! j \<ge> lcs ! i ! (j + 1)
         then main_loop a b lcs (ops @ [Del (a ! i)]) (i + 1) j
         else main_loop a b lcs (ops @ [Add (b ! j)]) i (j + 1))
      else (ops, i, j))"
  by pat_completeness auto
termination
  by (relation "measure (\<lambda>(a, b, lcs, ops, i, j). (length a - i) + (length b - j))") auto

text \<open>\<^verbatim>\<open>while (i < m) { ops.push({ type: "del", left: a[i++] }); }\<close>\<close>

function del_loop :: "string list \<Rightarrow> Op list \<Rightarrow> nat \<Rightarrow> Op list" where
  "del_loop a ops i =
     (if i < length a then del_loop a (ops @ [Del (a ! i)]) (i + 1) else ops)"
  by pat_completeness auto
termination
  by (relation "measure (\<lambda>(a, ops, i). length a - i)") auto

text \<open>\<^verbatim>\<open>while (j < n) { ops.push({ type: "add", right: b[j++] }); }\<close>\<close>

function add_loop :: "string list \<Rightarrow> Op list \<Rightarrow> nat \<Rightarrow> Op list" where
  "add_loop b ops j =
     (if j < length b then add_loop b (ops @ [Add (b ! j)]) (j + 1) else ops)"
  by pat_completeness auto
termination
  by (relation "measure (\<lambda>(b, ops, j). length b - j)") auto

definition computeOps :: "string \<Rightarrow> string \<Rightarrow> Op list" where
  "computeOps leftText rightText =
     (let a = split_lines leftText;
          b = split_lines rightText;
          m = length a;
          n = length b;
          lcs = fill_table a b m n (init_table m n)
      in case main_loop a b lcs [] 0 0 of
           (ops, i, j) \<Rightarrow> add_loop b (del_loop a ops i) j)"

subsection \<open>Replaying an edit script\<close>

text \<open>
  The left side of a script: the left lines of its context ops and the lines of its
  deletes, in order. The right side: the right lines of its context ops and the lines of
  its inserts, in order.
\<close>

fun left_lines :: "Op list \<Rightarrow> string list" where
  "left_lines [] = []"
| "left_lines (Context l r # ops) = l # left_lines ops"
| "left_lines (Del l # ops) = l # left_lines ops"
| "left_lines (Add r # ops) = left_lines ops"

fun right_lines :: "Op list \<Rightarrow> string list" where
  "right_lines [] = []"
| "right_lines (Context l r # ops) = r # right_lines ops"
| "right_lines (Del l # ops) = right_lines ops"
| "right_lines (Add r # ops) = r # right_lines ops"

fun context_equal :: "Op \<Rightarrow> bool" where
  "context_equal (Context l r) = (l = r)"
| "context_equal (Del l) = True"
| "context_equal (Add r) = True"

fun is_context :: "Op \<Rightarrow> bool" where
  "is_context (Context l r) = True"
| "is_context (Del l) = False"
| "is_context (Add r) = False"

text \<open>A script is valid for \<open>a\<close> and \<open>b\<close> when it replays to both and its context ops agree.\<close>

definition valid_script :: "string list \<Rightarrow> string list \<Rightarrow> Op list \<Rightarrow> bool" where
  "valid_script a b ops \<longleftrightarrow>
     left_lines ops = a \<and> right_lines ops = b \<and> list_all context_equal ops"

definition context_count :: "Op list \<Rightarrow> nat" where
  "context_count ops = length (filter is_context ops)"

definition change_count :: "Op list \<Rightarrow> nat" where
  "change_count ops = length (filter (\<lambda>op. \<not> is_context op) ops)"

text \<open>
  The length of a longest common subsequence, by the recurrence on the two sequences.
\<close>

fun lcs_length :: "'a list \<Rightarrow> 'a list \<Rightarrow> nat" where
  "lcs_length [] ys = 0"
| "lcs_length (x # xs) [] = 0"
| "lcs_length (x # xs) (y # ys) =
     (if x = y then lcs_length xs ys + 1
      else max (lcs_length xs (y # ys)) (lcs_length (x # xs) ys))"

subsection \<open>The walk as the specification words it\<close>

text \<open>
  The table entry the specification describes: \<open>lcs[i][j]\<close> is the length of a longest
  common subsequence of \<open>a[i:]\<close> and \<open>b[j:]\<close>.
\<close>

definition spec_lcs :: "string list \<Rightarrow> string list \<Rightarrow> nat \<Rightarrow> nat \<Rightarrow> nat" where
  "spec_lcs a b i j = lcs_length (drop i a) (drop j b)"

text \<open>
  The walk the specification prescribes, from \<open>(i, j)\<close>: a context op where the lines
  agree, otherwise a delete when \<open>lcs[i+1][j] \<ge> lcs[i][j+1]\<close> and an insert when not;
  at the end of either sequence the rest of \<open>a\<close> as deletes, then the rest of \<open>b\<close> as
  inserts.
\<close>

function spec_walk :: "string list \<Rightarrow> string list \<Rightarrow> nat \<Rightarrow> nat \<Rightarrow> Op list" where
  "spec_walk a b i j =
     (if i < length a \<and> j < length b then
        (if a ! i = b ! j then Context (a ! i) (b ! j) # spec_walk a b (i + 1) (j + 1)
         else if spec_lcs a b (i + 1) j \<ge> spec_lcs a b i (j + 1)
         then Del (a ! i) # spec_walk a b (i + 1) j
         else Add (b ! j) # spec_walk a b i (j + 1))
      else map Del (drop i a) @ map Add (drop j b))"
  by pat_completeness auto
termination
  by (relation "measure (\<lambda>(a, b, i, j). (length a - i) + (length b - j))") auto

definition spec_diffLines :: "string \<Rightarrow> string \<Rightarrow> Op list" where
  "spec_diffLines leftText rightText =
     spec_walk (split_lines leftText) (split_lines rightText) 0 0"

subsection \<open>The invariant of the loops that fill the table\<close>

text \<open>
  The table has its dimensions, its last column is still 0, and every row from \<open>i\<close> on
  holds the lengths of the longest common subsequences of the suffixes.
\<close>

definition table_inv :: "string list \<Rightarrow> string list \<Rightarrow> nat list list \<Rightarrow> nat \<Rightarrow> bool" where
  "table_inv a b lcs i \<longleftrightarrow>
     length lcs = length a + 1 \<and>
     (\<forall>r \<le> length a. length (lcs ! r) = length b + 1) \<and>
     (\<forall>r \<le> length a. lcs ! r ! length b = 0) \<and>
     (\<forall>r c. i \<le> r \<and> r \<le> length a \<and> c \<le> length b \<longrightarrow> lcs ! r ! c = spec_lcs a b r c)"

text \<open>Within row \<open>i\<close>, the cells from column \<open>k\<close> on are filled as well.\<close>

definition row_inv :: "string list \<Rightarrow> string list \<Rightarrow> nat list list \<Rightarrow> nat \<Rightarrow> nat \<Rightarrow> bool" where
  "row_inv a b lcs i k \<longleftrightarrow>
     table_inv a b lcs (i + 1) \<and>
     (\<forall>c. k \<le> c \<and> c \<le> length b \<longrightarrow> lcs ! i ! c = spec_lcs a b i c)"

section \<open>The split projection (diff-view component)\<close>

text \<open>
  \<^verbatim>\<open>type Row = { type: "context" | "add" | "del" | "change"; left?: string; right?: string }\<close>
\<close>

datatype RowType = RContext | RAdd | RDel | RChange

record Row =
  rtype :: RowType
  left :: "string option"
  right :: "string option"

text \<open>
  \<^verbatim>\<open>!prev.right\<close>: true of a field that is absent and of the empty string.
\<close>

fun falsy :: "string option \<Rightarrow> bool" where
  "falsy None = True"
| "falsy (Some s) = (s = [])"

text \<open>
  The body of the loop \<^verbatim>\<open>for (const op of ops)\<close>. \<^verbatim>\<open>rows[rows.length - 1]\<close> is
  undefined when \<open>rows\<close> is empty, and the test \<^verbatim>\<open>prev && ...\<close> then fails. The merge
  updates the last row in place.
\<close>

fun push_op :: "Row list \<Rightarrow> Op \<Rightarrow> Row list" where
  "push_op rows (Context l r) = rows @ [\<lparr>rtype = RContext, left = Some l, right = Some r\<rparr>]"
| "push_op rows (Del l) = rows @ [\<lparr>rtype = RDel, left = Some l, right = Some []\<rparr>]"
| "push_op rows (Add r) =
     (if rows \<noteq> [] \<and> rtype (last rows) = RDel \<and> falsy (right (last rows))
      then butlast rows @ [(last rows)\<lparr>rtype := RChange, right := Some r\<rparr>]
      else rows @ [\<lparr>rtype = RAdd, left = Some [], right = Some r\<rparr>])"

definition opsToSplitRows :: "Op list \<Rightarrow> Row list" where
  "opsToSplitRows ops = foldl push_op [] ops"

subsection \<open>What the rows are measured against\<close>


text \<open>An open del row: a del row whose right side is still empty.\<close>

definition open_del :: "Row \<Rightarrow> bool" where
  "open_del row \<longleftrightarrow> rtype row = RDel \<and> falsy (right row)"

text \<open>No open del row is immediately followed by an add row.\<close>

fun coalesced :: "Row list \<Rightarrow> bool" where
  "coalesced [] = True"
| "coalesced [row] = True"
| "coalesced (row # next # rows) =
     (\<not> (open_del row \<and> rtype next = RAdd) \<and> coalesced (next # rows))"

text \<open>
  The left texts of the context, del and change rows, and the right texts of the context,
  add and change rows, in row order.
\<close>

definition row_left_texts :: "Row list \<Rightarrow> string option list" where
  "row_left_texts rows = map left (filter (\<lambda>row. rtype row \<noteq> RAdd) rows)"

definition row_right_texts :: "Row list \<Rightarrow> string option list" where
  "row_right_texts rows = map right (filter (\<lambda>row. rtype row \<noteq> RDel) rows)"

text \<open>Both fields of a row are set.\<close>

definition both_set :: "Row \<Rightarrow> bool" where
  "both_set row \<longleftrightarrow> left row \<noteq> None \<and> right row \<noteq> None"

section \<open>The value normalizer (diff-view component)\<close>

subsection \<open>Values\<close>

text \<open>
  The argument of \<^verbatim>\<open>toPrettyJSON(value: any)\<close>: one constructor for each result of
  \<^verbatim>\<open>typeof\<close>, with \<^verbatim>\<open>null\<close>, arrays and plain objects for \<^verbatim>\<open>"object"\<close>. A number is
  finite and of a type \<open>'n\<close> left open; its rendering \<open>num\<close> (the runtime's conversion of
  a number to a string) is a parameter of every function that prints one. A symbol carries
  its description, a function its source text. An object is the list of its own
  enumerable properties in the order the runtime enumerates them. A string is the list of
  its code units, here of 8 bits, and strings are ordered by their code units. Values with
  cycles, accessors, \<^verbatim>\<open>toJSON\<close> methods or holes are outside the model.
\<close>

datatype error = TypeError

datatype 'n jsval =
    JUndefined
  | JNull
  | JBool bool
  | JNum 'n
  | JBigInt int
  | JStr string
  | JSymbol string
  | JFunction string
  | JArr "'n jsval list"
  | JObj "(string \<times> 'n jsval) list"

subsection \<open>Decimal numerals\<close>

definition digit_char :: "nat \<Rightarrow> char" where
  "digit_char d = char_of (48 + d)"

fun decimal :: "nat \<Rightarrow> string" where
  "decimal n = (if n < 10 then [digit_char n] else decimal (n div 10) @ [digit_char (n mod 10)])"

declare decimal.simps [simp del]

text \<open>The rendering of a BigInt, and of a number that is an integer of moderate size.\<close>

definition int_to_string :: "int \<Rightarrow> string" where
  "int_to_string i = (if i < 0 then CHR ''-'' # decimal (nat (- i)) else decimal (nat i))"

subsection \<open>Property order of an object\<close>

text \<open>
  A key is an array index when it is the decimal numeral, without leading zeros, of an
  integer from 0 to \<open>2^32 - 2\<close>. An object enumerates its array-index keys first, in
  ascending numeric order, and then its other keys in the order of their creation.
\<close>

definition is_digit :: "char \<Rightarrow> bool" where
  "is_digit c \<longleftrightarrow> 48 \<le> (of_char c :: nat) \<and> (of_char c :: nat) \<le> 57"

definition index_value :: "string \<Rightarrow> int" where
  "index_value k = foldl (\<lambda>n c. 10 * n + ((of_char c :: int) - 48)) 0 k"

definition is_array_index :: "string \<Rightarrow> bool" where
  "is_array_index k \<longleftrightarrow>
     k \<noteq> [] \<and> list_all is_digit k \<and> (k = ''0'' \<or> hd k \<noteq> CHR ''0'') \<and>
     index_value k < 4294967295"

fun insert_index :: "string \<Rightarrow> 'v \<Rightarrow> (string \<times> 'v) list \<Rightarrow> (string \<times> 'v) list" where
  "insert_index k v [] = [(k, v)]"
| "insert_index k v ((k', v') # rest) =
     (if is_array_index k' \<and> index_value k' < index_value k
      then (k', v') # insert_index k v rest
      else (k, v) # (k', v') # rest)"

text \<open>
  \<^verbatim>\<open>out[key] = v\<close> on an object that began as \<^verbatim>\<open>{}\<close>. The key \<^verbatim>\<open>__proto__\<close> reaches the
  setter of the prototype and creates no property; an existing property keeps its place; a
  new array index goes among the indices; any other new key goes last.
\<close>

definition set_property :: "(string \<times> 'v) list \<Rightarrow> string \<Rightarrow> 'v \<Rightarrow> (string \<times> 'v) list" where
  "set_property out k v =
     (if k = ''__proto__'' then out
      else if k \<in> set (map fst out) then map (\<lambda>(k', v'). if k' = k then (k', v) else (k', v')) out
      else if is_array_index k then insert_index k v out
      else out @ [(k, v)])"

text \<open>\<^verbatim>\<open>Object.keys(value)\<close> and \<^verbatim>\<open>value[key]\<close>.\<close>

definition object_keys :: "(string \<times> 'v) list \<Rightarrow> string list" where
  "object_keys kvs = map fst kvs"

definition get_property :: "(string \<times> 'n jsval) list \<Rightarrow> string \<Rightarrow> 'n jsval" where
  "get_property kvs k = (case map_of kvs k of Some v \<Rightarrow> v | None \<Rightarrow> JUndefined)"

subsection \<open>Sorting the keys\<close>

text \<open>
  \<^verbatim>\<open>stableSortKeys\<close>: an array is mapped element by element; an object (a value that is
  truthy and of type \<^verbatim>\<open>"object"\<close>, so not \<^verbatim>\<open>null\<close>) is rebuilt by assigning its keys in
  the order of \<^verbatim>\<open>Object.keys(value).sort()\<close>, which compares strings by their code units;
  any other value is returned as it is.
\<close>

function stableSortKeys :: "'n jsval \<Rightarrow> 'n jsval" where
  "stableSortKeys (JArr vs) = JArr (map stableSortKeys vs)"
| "stableSortKeys (JObj kvs) =
     JObj (foldl (\<lambda>out key. set_property out key (stableSortKeys (get_property kvs key)))
             [] (sort (object_keys kvs)))"
| "stableSortKeys JUndefined = JUndefined"
| "stableSortKeys JNull = JNull"
| "stableSortKeys (JBool b) = JBool b"
| "stableSortKeys (JNum x) = JNum x"
| "stableSortKeys (JBigInt i) = JBigInt i"
| "stableSortKeys (JStr s) = JStr s"
| "stableSortKeys (JSymbol d) = JSymbol d"
| "stableSortKeys (JFunction src) = JFunction src"
  by pat_completeness auto
termination
proof (relation "measure size")
  show "wf (measure size)" by simp
next
  fix vs :: "'n jsval list" and x
  assume "x \<in> set vs"
  then show "(x, JArr vs) \<in> measure size"
    by (induction vs) auto
next
  fix kvs :: "(string \<times> 'n jsval) list" and out :: "(string \<times> 'n jsval) list" and key
  assume "key \<in> set (sort (object_keys kvs))"
  then have "key \<in> fst ` set kvs" by (simp add: object_keys_def)
  then obtain v where "map_of kvs key = Some v" "(key, v) \<in> set kvs"
    by (metis (no_types, opaque_lifting) domD dom_map_of_conv_image_fst map_of_SomeD)
  moreover have "size v < size (JObj kvs)" if "(key, v) \<in> set kvs" for v
    using that by (induction kvs) auto
  ultimately show "(get_property kvs key, JObj kvs) \<in> measure size"
    by (simp add: get_property_def)
qed

subsection \<open>Serialization\<close>

text \<open>
  \<^verbatim>\<open>JSON.stringify(value, null, 2)\<close>, as the language defines it. A string is quoted with
  its control characters, its quotation marks and its backslashes escaped.
\<close>

definition hex_char :: "nat \<Rightarrow> char" where
  "hex_char d = (if d < 10 then char_of (48 + d) else char_of (87 + d))"

definition escape_char :: "char \<Rightarrow> string" where
  "escape_char c =
     (if c = CHR 0x08 then [CHR 0x5C, CHR ''b'']
      else if c = CHR 0x09 then [CHR 0x5C, CHR ''t'']
      else if c = CHR 0x0A then [CHR 0x5C, CHR ''n'']
      else if c = CHR 0x0C then [CHR 0x5C, CHR ''f'']
      else if c = CHR 0x0D then [CHR 0x5C, CHR ''r'']
      else if c = CHR 0x22 then [CHR 0x5C, CHR 0x22]
      else if c = CHR 0x5C then [CHR 0x5C, CHR 0x5C]
      else if (of_char c :: nat) < 32
      then [CHR 0x5C, CHR ''u'', CHR ''0'', CHR ''0'',
            hex_char ((of_char c :: nat) div 16), hex_char ((of_char c :: nat) mod 16)]
      else [c])"

definition quote :: "string \<Rightarrow> string" where
  "quote s = CHR 0x22 # concat (map escape_char s) @ [CHR 0x22]"

fun join :: "string \<Rightarrow> string list \<Rightarrow> string" where
  "join sep [] = []"
| "join sep [s] = s"
| "join sep (s # t # rest) = s @ sep @ join sep (t # rest)"

text \<open>The first exception of a sequence of evaluations, in their order.\<close>

fun first_error :: "(error + 'a) list \<Rightarrow> error option" where
  "first_error [] = None"
| "first_error (Inl e # rs) = Some e"
| "first_error (Inr x # rs) = first_error rs"

definition gap :: string where
  "gap = ''  ''"

text \<open>
  An element of an array that serializes to undefined is written \<^verbatim>\<open>null\<close>; a property of
  an object that serializes to undefined is left out.
\<close>

fun array_element :: "error + string option \<Rightarrow> string" where
  "array_element (Inr (Some s)) = s"
| "array_element (Inr None) = ''null''"
| "array_element (Inl e) = ''null''"

fun object_member :: "string \<times> (error + string option) \<Rightarrow> string list" where
  "object_member (k, Inr (Some s)) = [quote k @ '': '' @ s]"
| "object_member (k, Inr None) = []"
| "object_member (k, Inl e) = []"

text \<open>
  The result is \<open>Inl\<close> of the exception thrown (a BigInt cannot be serialized), \<open>Inr None\<close>
  for undefined (the result for undefined itself, a function and a symbol), and
  \<open>Inr (Some text)\<close> otherwise.
\<close>

fun serialize :: "('n \<Rightarrow> string) \<Rightarrow> string \<Rightarrow> 'n jsval \<Rightarrow> error + string option" where
  "serialize num indent JUndefined = Inr None"
| "serialize num indent (JFunction src) = Inr None"
| "serialize num indent (JSymbol d) = Inr None"
| "serialize num indent JNull = Inr (Some ''null'')"
| "serialize num indent (JBool b) = Inr (Some (if b then ''true'' else ''false''))"
| "serialize num indent (JStr s) = Inr (Some (quote s))"
| "serialize num indent (JNum x) = Inr (Some (num x))"
| "serialize num indent (JBigInt i) = Inl TypeError"
| "serialize num indent (JArr vs) =
     (let stepback = indent;
          indent = indent @ gap;
          results = map (serialize num indent) vs
      in case first_error results of
           Some e \<Rightarrow> Inl e
         | None \<Rightarrow>
             Inr (Some (if results = [] then ''[]''
                        else ''['' @ [newline] @ indent
                             @ join ('','' @ [newline] @ indent) (map array_element results)
                             @ [newline] @ stepback @ '']'')))"
| "serialize num indent (JObj kvs) =
     (let stepback = indent;
          indent = indent @ gap;
          results = map (\<lambda>kv. (fst kv, serialize num indent (snd kv))) kvs
      in case first_error (map snd results) of
           Some e \<Rightarrow> Inl e
         | None \<Rightarrow>
             (let partial = concat (map object_member results)
              in Inr (Some (if partial = [] then ''{}''
                            else ''{'' @ [newline] @ indent
                                 @ join ('','' @ [newline] @ indent) partial
                                 @ [newline] @ stepback @ ''}''))))"

definition JSON_stringify :: "('n \<Rightarrow> string) \<Rightarrow> 'n jsval \<Rightarrow> error + string option" where
  "JSON_stringify num v = serialize num [] v"

subsection \<open>Coercion to a string\<close>

text \<open>
  The conversion of a value to a string: it throws on a symbol; an array is the join of its
  elements with commas, undefined and null elements being empty; a plain object is
  \<^verbatim>\<open>[object Object]\<close>.
\<close>

fun to_string :: "('n \<Rightarrow> string) \<Rightarrow> 'n jsval \<Rightarrow> error + string" where
  "to_string num JUndefined = Inr ''undefined''"
| "to_string num JNull = Inr ''null''"
| "to_string num (JBool b) = Inr (if b then ''true'' else ''false'')"
| "to_string num (JNum x) = Inr (num x)"
| "to_string num (JBigInt i) = Inr (int_to_string i)"
| "to_string num (JStr s) = Inr s"
| "to_string num (JSymbol d) = Inl TypeError"
| "to_string num (JFunction src) = Inr src"
| "to_string num (JObj kvs) = Inr ''[object Object]''"
| "to_string num (JArr vs) =
     (let results = map (\<lambda>v. case v of JUndefined \<Rightarrow> Inr [] | JNull \<Rightarrow> Inr []
                                  | _ \<Rightarrow> to_string num v) vs
      in case first_error results of
           Some e \<Rightarrow> Inl e
         | None \<Rightarrow> Inr (join '','' (map (\<lambda>r. case r of Inr s \<Rightarrow> s | Inl e \<Rightarrow> []) results)))"

text \<open>\<^verbatim>\<open>String(value)\<close>: a symbol itself is described, any other value is converted.\<close>

fun String_js :: "('n \<Rightarrow> string) \<Rightarrow> 'n jsval \<Rightarrow> error + string" where
  "String_js num (JSymbol d) = Inr (''Symbol('' @ d @ '')'')"
| "String_js num v = to_string num v"

subsection \<open>The normalizer\<close>

text \<open>
  \<^verbatim>\<open>toPrettyJSON\<close>: the empty string for undefined; otherwise what \<^verbatim>\<open>JSON.stringify\<close>
  returns for the value with its keys sorted; when that throws, what it returns for the
  value itself; when that throws too, \<^verbatim>\<open>String(value)\<close>. The result is \<open>Inl\<close> of an
  exception that leaves the function, \<open>Inr None\<close> when it returns undefined, and
  \<open>Inr (Some text)\<close> when it returns a string.
\<close>

fun toPrettyJSON :: "('n \<Rightarrow> string) \<Rightarrow> 'n jsval \<Rightarrow> error + string option" where
  "toPrettyJSON num JUndefined = Inr (Some [])"
| "toPrettyJSON num v =
     (case JSON_stringify num (stableSortKeys v) of
        Inr text \<Rightarrow> Inr text
      | Inl e \<Rightarrow>
          (case JSON_stringify num v of
             Inr text \<Rightarrow> Inr text
           | Inl e' \<Rightarrow>
               (case String_js num v of
                  Inr text \<Rightarrow> Inr (Some text)
                | Inl e'' \<Rightarrow> Inl e'')))"

subsection \<open>Equality up to the order of keys\<close>

fun isContainer :: "'n jsval \<Rightarrow> bool" where
  "isContainer (JArr vs) = True"
| "isContainer (JObj kvs) = True"
| "isContainer v = False"

text \<open>
  Two values are equal up to the order of keys when they are the same leaf, or arrays
  whose elements are so related in order, or objects with the same keys, each once, whose
  values under every key are so related.
\<close>

inductive key_perm_eq :: "'n jsval \<Rightarrow> 'n jsval \<Rightarrow> bool" where
  leaf: "\<not> isContainer v \<Longrightarrow> key_perm_eq v v"
| arrays: "list_all2 key_perm_eq vs ws \<Longrightarrow> key_perm_eq (JArr vs) (JArr ws)"
| objects:
    "distinct (object_keys kvs) \<Longrightarrow> distinct (object_keys kws) \<Longrightarrow>
     set (object_keys kvs) = set (object_keys kws) \<Longrightarrow>
     (\<forall>k \<in> set (object_keys kvs). key_perm_eq (get_property kvs k) (get_property kws k)) \<Longrightarrow>
     key_perm_eq (JObj kvs) (JObj kws)"

text \<open>A value that holds a BigInt, the one value of the model that cannot be serialized.\<close>

fun has_bigint :: "'n jsval \<Rightarrow> bool" where
  "has_bigint (JBigInt i) = True"
| "has_bigint (JArr vs) = list_ex has_bigint vs"
| "has_bigint (JObj kvs) = list_ex (\<lambda>kv. has_bigint (snd kv)) kvs"
| "has_bigint v = False"


text \<open>The text of an element of an array in the join.\<close>

definition join_element :: "('n \<Rightarrow> string) \<Rightarrow> 'n jsval \<Rightarrow> error + string" where
  "join_element num v = (case v of JUndefined \<Rightarrow> Inr [] | JNull \<Rightarrow> Inr [] | _ \<Rightarrow> to_string num v)"

section \<open>The diff view\<close>

text \<open>
  \<^verbatim>\<open>DiffView({ title, left, right, mode })\<close>: the two texts, the script, the rows and what
  the view shows. In split mode each column shows one side of every row; in unified mode
  every op is one line, with the prefix of its kind. \<^verbatim>\<open>leftText.split\<close> throws when
  \<^verbatim>\<open>toPrettyJSON\<close> returned undefined. The title is displayed as it is.
\<close>

datatype Mode = Split | Unified

fun unified_line :: "Op \<Rightarrow> string" where
  "unified_line (Add r) = ''+ '' @ r"
| "unified_line (Del l) = ''- '' @ l"
| "unified_line (Context l r) = ''  '' @ l"

datatype view_body =
    SplitColumns "string option list" "string option list"
  | UnifiedLines "string list"

definition DiffView ::
  "('n \<Rightarrow> string) \<Rightarrow> 'n jsval \<Rightarrow> 'n jsval \<Rightarrow> Mode \<Rightarrow> error + (bool \<times> view_body)" where
  "DiffView num left_value right_value mode =
     (case toPrettyJSON num left_value of
        Inl e \<Rightarrow> Inl e
      | Inr leftText \<Rightarrow>
     (case toPrettyJSON num right_value of
        Inl e \<Rightarrow> Inl e
      | Inr rightText \<Rightarrow>
     (case leftText of
        None \<Rightarrow> Inl TypeError
      | Some leftText \<Rightarrow>
     (case rightText of
        None \<Rightarrow> Inl TypeError
      | Some rightText \<Rightarrow>
          (let ops = computeOps leftText rightText;
               splitRows = opsToSplitRows ops;
               hasChanges = list_ex (\<lambda>op. \<not> is_context op) ops
           in Inr (hasChanges,
                   if mode = Split
                   then SplitColumns (map left splitRows) (map right splitRows)
                   else UnifiedLines (map unified_line ops)))))))"

section \<open>The value tree renderer (json-view component)\<close>

text \<open>
  \<^verbatim>\<open>tryParse\<close>: a string that parses as JSON is replaced by what it parses to; any
  other value is kept. \<^verbatim>\<open>JSON.parse\<close> is the runtime's, and a parameter here: \<open>None\<close>
  where it throws.
\<close>

definition tryParse :: "(string \<Rightarrow> 'n jsval option) \<Rightarrow> 'n jsval \<Rightarrow> 'n jsval" where
  "tryParse parse v =
     (case v of
        JStr s \<Rightarrow> (case parse s of Some parsed \<Rightarrow> parsed | None \<Rightarrow> v)
      | _ \<Rightarrow> v)"

text \<open>
  What a node renders: a leaf shows its label and its literal (a string quoted, any other
  leaf coerced to a string); a container with children is a disclosure element, open when
  not collapsed, with its label and header; a container without children is a plain line.
\<close>

datatype body =
    LeafDiv string "error + string"
  | Details bool string string
  | PlainDiv string string

text \<open>
  A mounted \<^verbatim>\<open>JsonNode\<close>: its path, its \<^verbatim>\<open>depth\<close> property, its value, the initial
  value of its \<^verbatim>\<open>collapsed\<close> state, what it renders, and the nodes of its entries.
\<close>

datatype 'n node =
  Node (node_path: string) (node_depth: nat) (node_value: "'n jsval") (collapsed: bool)
       (node_body: body) (children: "'n node list")

text \<open>\<^verbatim>\<open>name !== undefined ? `${name}: ` : ""\<close>\<close>

definition label_of :: "string option \<Rightarrow> string" where
  "label_of name = (case name of Some n \<Rightarrow> n @ '': '' | None \<Rightarrow> [])"

text \<open>\<^verbatim>\<open>value.map((v, i) => [String(i), v])\<close>, from index \<open>i\<close> on.\<close>

fun array_entries :: "nat \<Rightarrow> 'a list \<Rightarrow> (string \<times> 'a) list" where
  "array_entries i [] = []"
| "array_entries i (v # vs) = (decimal i, v) # array_entries (i + 1) vs"

text \<open>
  \<^verbatim>\<open>JsonNode\<close>, by the kind of its value. The state is created with
  \<^verbatim>\<open>useState(isContainer && depth >= defaultCollapsedDepth)\<close>; the children of an array have
  no name, those of an object their key; every child is at \<^verbatim>\<open>depth + 1\<close> and at the path
  of its parent extended by its key.
\<close>

function JsonNode ::
  "('n \<Rightarrow> string) \<Rightarrow> string option \<Rightarrow> 'n jsval \<Rightarrow> nat \<Rightarrow> string \<Rightarrow> int \<Rightarrow> 'n node" where
  "JsonNode num name (JArr vs) depth path defaultCollapsedDepth =
     (let entries = array_entries 0 vs;
          hasChildren = entries \<noteq> [];
          collapsed = (isContainer (JArr vs) \<and> int depth \<ge> defaultCollapsedDepth);
          header = ''Array('' @ decimal (length vs) @ '')'';
          label = label_of name
      in if hasChildren
         then Node path depth (JArr vs) collapsed (Details (\<not> collapsed) label header)
                (map (\<lambda>kv. JsonNode num None (snd kv) (depth + 1) (path @ ''.'' @ fst kv)
                              defaultCollapsedDepth) entries)
         else Node path depth (JArr vs) collapsed (PlainDiv label header) [])"
| "JsonNode num name (JObj kvs) depth path defaultCollapsedDepth =
     (let entries = kvs;
          hasChildren = entries \<noteq> [];
          collapsed = (isContainer (JObj kvs) \<and> int depth \<ge> defaultCollapsedDepth);
          header = ''Object('' @ decimal (length (object_keys kvs)) @ '')'';
          label = label_of name
      in if hasChildren
         then Node path depth (JObj kvs) collapsed (Details (\<not> collapsed) label header)
                (map (\<lambda>kv. JsonNode num (Some (fst kv)) (snd kv) (depth + 1) (path @ ''.'' @ fst kv)
                              defaultCollapsedDepth) entries)
         else Node path depth (JObj kvs) collapsed (PlainDiv label header) [])"
| "JsonNode num name JUndefined depth path defaultCollapsedDepth =
     Node path depth JUndefined (isContainer (JUndefined :: 'n jsval) \<and> int depth \<ge> defaultCollapsedDepth)
       (LeafDiv (label_of name) (String_js num JUndefined)) []"
| "JsonNode num name JNull depth path defaultCollapsedDepth =
     Node path depth JNull (isContainer (JNull :: 'n jsval) \<and> int depth \<ge> defaultCollapsedDepth)
       (LeafDiv (label_of name) (String_js num JNull)) []"
| "JsonNode num name (JBool b) depth path defaultCollapsedDepth =
     Node path depth (JBool b) (isContainer (JBool b :: 'n jsval) \<and> int depth \<ge> defaultCollapsedDepth)
       (LeafDiv (label_of name) (String_js num (JBool b))) []"
| "JsonNode num name (JNum x) depth path defaultCollapsedDepth =
     Node path depth (JNum x) (isContainer (JNum x) \<and> int depth \<ge> defaultCollapsedDepth)
       (LeafDiv (label_of name) (String_js num (JNum x))) []"
| "JsonNode num name (JBigInt i) depth path defaultCollapsedDepth =
     Node path depth (JBigInt i) (isContainer (JBigInt i :: 'n jsval) \<and> int depth \<ge> defaultCollapsedDepth)
       (LeafDiv (label_of name) (String_js num (JBigInt i))) []"
| "JsonNode num name (JStr s) depth path defaultCollapsedDepth =
     Node path depth (JStr s) (isContainer (JStr s :: 'n jsval) \<and> int depth \<ge> defaultCollapsedDepth)
       (LeafDiv (label_of name) (Inr (quote s))) []"
| "JsonNode num name (JSymbol d) depth path defaultCollapsedDepth =
     Node path depth (JSymbol d) (isContainer (JSymbol d :: 'n jsval) \<and> int depth \<ge> defaultCollapsedDepth)
       (LeafDiv (label_of name) (String_js num (JSymbol d))) []"
| "JsonNode num name (JFunction src) depth path defaultCollapsedDepth =
     Node path depth (JFunction src) (isContainer (JFunction src :: 'n jsval) \<and> int depth \<ge> defaultCollapsedDepth)
       (LeafDiv (label_of name) (String_js num (JFunction src))) []"
  by pat_completeness auto
termination
proof (relation "measure (\<lambda>(num, name, v, depth, path, d). size v)")
  show "wf (measure (\<lambda>(num, name, v, depth, path, d). size v))" by simp
next
  fix num :: "'n \<Rightarrow> string" and name :: "string option" and vs :: "'n jsval list"
    and depth :: nat and path :: string and d :: int
    and x xa xb xc xd and kv :: "string \<times> 'n jsval"
  assume "x = array_entries 0 vs" "kv \<in> set x"
  moreover have "snd kv \<in> set vs" if "kv \<in> set (array_entries i vs)" for i
    using that by (induction vs arbitrary: i) auto
  moreover have "size v < size (JArr vs)" if "v \<in> set vs" for v
    using that by (induction vs) auto
  ultimately show "((num, None, snd kv, depth + 1, path @ ''.'' @ fst kv, d), num, name, JArr vs, depth, path, d)
      \<in> measure (\<lambda>(num, name, v, depth, path, d). size v)"
    by auto
next
  fix num :: "'n \<Rightarrow> string" and name :: "string option" and kvs :: "(string \<times> 'n jsval) list"
    and depth :: nat and path :: string and d :: int
    and x xa xb xc xd and kv :: "string \<times> 'n jsval"
  assume "x = kvs" "kv \<in> set x"
  moreover have "size (snd kv) < size (JObj kvs)" if "kv \<in> set kvs"
    using that by (induction kvs) auto
  ultimately show "((num, Some (fst kv), snd kv, depth + 1, path @ ''.'' @ fst kv, d), num, name, JObj kvs, depth, path, d)
      \<in> measure (\<lambda>(num, name, v, depth, path, d). size v)"
    by auto
qed

text \<open>\<^verbatim>\<open>JsonView\<close>: the root node, at depth 0 and path \<^verbatim>\<open>$\<close>; the depth defaults to 0.\<close>

definition JsonView ::
  "('n \<Rightarrow> string) \<Rightarrow> (string \<Rightarrow> 'n jsval option) \<Rightarrow> 'n jsval \<Rightarrow> int option \<Rightarrow> 'n node" where
  "JsonView num parse v defaultCollapsedDepth =
     (let defaultCollapsedDepth = (case defaultCollapsedDepth of None \<Rightarrow> 0 | Some d \<Rightarrow> d);
          data = tryParse parse v
      in JsonNode num None data 0 ''$'' defaultCollapsedDepth)"

text \<open>The nodes of a tree, each with its nesting depth, the root being at \<open>d\<close>.\<close>

fun nodes_at :: "nat \<Rightarrow> 'n node \<Rightarrow> (nat \<times> 'n node) list" where
  "nodes_at d (Node path depth v c b ch) =
     (d, Node path depth v c b ch) # concat (map (nodes_at (d + 1)) ch)"

section \<open>Properties of the diff engine\<close>

text \<open>
  The equations of the loops are applied a step at a time: each is an unconditional
  equation of the loop in terms of itself.
\<close>

declare main_loop.simps [simp del] del_loop.simps [simp del] add_loop.simps [simp del]
  spec_walk.simps [simp del]

lemma split_lines_nonempty: "split_lines s \<noteq> []"
  by (induction s) (auto split: list.splits)

lemma left_lines_append: "left_lines (xs @ ys) = left_lines xs @ left_lines ys"
  by (induction xs rule: left_lines.induct) auto

lemma right_lines_append: "right_lines (xs @ ys) = right_lines xs @ right_lines ys"
  by (induction xs rule: right_lines.induct) auto

lemma del_loop_eq: "del_loop a ops i = ops @ map Del (drop i a)"
proof (induction a ops i rule: del_loop.induct)
  case (1 a ops i)
  show ?case
  proof (cases "i < length a")
    case True
    then show ?thesis
      using "1.IH" by (subst del_loop.simps) (simp add: Cons_nth_drop_Suc [symmetric])
  next
    case False
    then show ?thesis by (subst del_loop.simps) simp
  qed
qed

lemma add_loop_eq: "add_loop b ops j = ops @ map Add (drop j b)"
proof (induction b ops j rule: add_loop.induct)
  case (1 b ops j)
  show ?case
  proof (cases "j < length b")
    case True
    then show ?thesis
      using "1.IH" by (subst add_loop.simps) (simp add: Cons_nth_drop_Suc [symmetric])
  next
    case False
    then show ?thesis by (subst add_loop.simps) simp
  qed
qed

lemma lcs_length_Nil2: "lcs_length xs [] = 0"
  by (cases xs) auto

lemma spec_lcs_end: "spec_lcs a b (length a) c = 0" "spec_lcs a b r (length b) = 0"
  by (simp_all add: spec_lcs_def lcs_length_Nil2)

lemma spec_lcs_step:
  assumes "i < length a" "j < length b"
  shows "spec_lcs a b i j =
    (if a ! i = b ! j then spec_lcs a b (i + 1) (j + 1) + 1
     else max (spec_lcs a b (i + 1) j) (spec_lcs a b i (j + 1)))"
proof -
  have "drop i a = a ! i # drop (Suc i) a" "drop j b = b ! j # drop (Suc j) b"
    using assms by (simp_all add: Cons_nth_drop_Suc)
  then show ?thesis by (simp add: spec_lcs_def)
qed

lemma table_inv_init: "table_inv a b (init_table (length a) (length b)) (length a)"
proof -
  have "spec_lcs a b r c = 0" if "length a \<le> r" "r \<le> length a" for r c
    using that spec_lcs_end(1) [of a b c] by (simp add: le_antisym)
  then show ?thesis
    by (simp add: table_inv_def init_table_def del: replicate.simps)
qed

lemma row_inv_start:
  assumes "table_inv a b lcs (i + 1)" "i < length a"
  shows "row_inv a b lcs i (length b)"
  using assms by (auto simp: row_inv_def table_inv_def spec_lcs_end)

lemma row_inv_step:
  assumes inv: "row_inv a b lcs i (Suc j)" and i: "i < length a" and j: "j < length b"
  defines "v \<equiv> (if a ! i = b ! j then lcs ! (i + 1) ! (j + 1) + 1
                  else max (lcs ! (i + 1) ! j) (lcs ! i ! (j + 1)))"
  shows "row_inv a b (lcs[i := (lcs ! i)[j := v]]) i j"
proof -
  let ?lcs' = "lcs[i := (lcs ! i)[j := v]]"
  from inv have T: "table_inv a b lcs (i + 1)"
    and R: "\<And>c. Suc j \<le> c \<Longrightarrow> c \<le> length b \<Longrightarrow> lcs ! i ! c = spec_lcs a b i c"
    by (auto simp: row_inv_def)
  from T have len: "length lcs = length a + 1"
    and rows: "\<And>r. r \<le> length a \<Longrightarrow> length (lcs ! r) = length b + 1"
    and lastc: "\<And>r. r \<le> length a \<Longrightarrow> lcs ! r ! length b = 0"
    and below: "\<And>r c. i + 1 \<le> r \<Longrightarrow> r \<le> length a \<Longrightarrow> c \<le> length b \<Longrightarrow> lcs ! r ! c = spec_lcs a b r c"
    by (auto simp: table_inv_def)
  have v: "v = spec_lcs a b i j"
    using i j below [of "i + 1" "j + 1"] below [of "i + 1" j] R [of "j + 1"]
    by (simp add: v_def spec_lcs_step [OF i j])
  have nth': "?lcs' ! r ! c = (if r = i \<and> c = j then v else lcs ! r ! c)"
    if "r \<le> length a" "c \<le> length b" for r c
    using that len rows [of i] i j by (auto simp: nth_list_update)
  have len': "length ?lcs' = length a + 1" using len by simp
  have rows': "length (?lcs' ! r) = length b + 1" if "r \<le> length a" for r
    using that len rows [of r] rows [of i] by (cases "r = i") (auto simp: nth_list_update)
  have T': "table_inv a b ?lcs' (i + 1)"
    unfolding table_inv_def
    using len' rows' lastc below j by (auto simp: nth')
  have R': "?lcs' ! i ! c = spec_lcs a b i c" if "j \<le> c" "c \<le> length b" for c
    using that i v R [of c] nth' [of i c] by (cases "c = j") auto
  show ?thesis unfolding row_inv_def using T' R' by blast
qed

lemma fill_row_inv:
  assumes "row_inv a b lcs i k" "i < length a" "k \<le> length b"
  shows "row_inv a b (fill_row a b i k lcs) i 0"
  using assms
proof (induction k arbitrary: lcs)
  case 0
  then show ?case by simp
next
  case (Suc k)
  have "row_inv a b (lcs[i := (lcs ! i)[k := (if a ! i = b ! k then lcs ! (i + 1) ! (k + 1) + 1
                  else max (lcs ! (i + 1) ! k) (lcs ! i ! (k + 1)))]]) i k"
    using row_inv_step [OF Suc.prems(1) Suc.prems(2)] Suc.prems(3) by simp
  then have "row_inv a b (fill_row a b i k (lcs[i := (lcs ! i)[k := (if a ! i = b ! k then lcs ! (i + 1) ! (k + 1) + 1
                  else max (lcs ! (i + 1) ! k) (lcs ! i ! (k + 1)))]])) i 0"
    using Suc.IH Suc.prems by simp
  then show ?case by (simp split: if_splits)
qed

lemma row_inv_done: "row_inv a b lcs i 0 \<Longrightarrow> table_inv a b lcs i"
  unfolding row_inv_def table_inv_def
  by (metis Suc_eq_plus1 Suc_leI le0 le_neq_implies_less)

lemma fill_table_inv:
  assumes "table_inv a b lcs i" "i \<le> length a"
  shows "table_inv a b (fill_table a b i (length b) lcs) 0"
  using assms
proof (induction i arbitrary: lcs)
  case 0
  then show ?case by simp
next
  case (Suc i)
  have "row_inv a b lcs i (length b)"
    using Suc.prems by (intro row_inv_start) auto
  then have "row_inv a b (fill_row a b i (length b) lcs) i 0"
    using Suc.prems by (intro fill_row_inv) auto
  then have "table_inv a b (fill_row a b i (length b) lcs) i"
    by (rule row_inv_done)
  then show ?case using Suc.IH Suc.prems by simp
qed

lemma filled_table:
  assumes "i \<le> length a" "j \<le> length b"
  shows "fill_table a b (length a) (length b) (init_table (length a) (length b)) ! i ! j
         = spec_lcs a b i j"
  using fill_table_inv [OF table_inv_init order_refl, of a b] assms
  by (simp add: table_inv_def)

lemma main_loop_stop:
  "\<not> (i < length a \<and> j < length b) \<Longrightarrow> main_loop a b lcs ops i j = (ops, i, j)"
  by (subst main_loop.simps) auto

lemma main_loop_context:
  "i < length a \<Longrightarrow> j < length b \<Longrightarrow> a ! i = b ! j \<Longrightarrow>
   main_loop a b lcs ops i j = main_loop a b lcs (ops @ [Context (a ! i) (b ! j)]) (i + 1) (j + 1)"
  by (subst main_loop.simps) simp

lemma main_loop_del:
  "i < length a \<Longrightarrow> j < length b \<Longrightarrow> a ! i \<noteq> b ! j \<Longrightarrow>
   lcs ! i ! (j + 1) \<le> lcs ! (i + 1) ! j \<Longrightarrow>
   main_loop a b lcs ops i j = main_loop a b lcs (ops @ [Del (a ! i)]) (i + 1) j"
  by (subst main_loop.simps) simp

lemma main_loop_add:
  "i < length a \<Longrightarrow> j < length b \<Longrightarrow> a ! i \<noteq> b ! j \<Longrightarrow>
   \<not> lcs ! i ! (j + 1) \<le> lcs ! (i + 1) ! j \<Longrightarrow>
   main_loop a b lcs ops i j = main_loop a b lcs (ops @ [Add (b ! j)]) i (j + 1)"
  by (subst main_loop.simps) simp

lemma spec_walk_stop:
  "\<not> (i < length a \<and> j < length b) \<Longrightarrow>
   spec_walk a b i j = map Del (drop i a) @ map Add (drop j b)"
  by (subst spec_walk.simps) auto

lemma spec_walk_context:
  "i < length a \<Longrightarrow> j < length b \<Longrightarrow> a ! i = b ! j \<Longrightarrow>
   spec_walk a b i j = Context (a ! i) (b ! j) # spec_walk a b (i + 1) (j + 1)"
  by (subst spec_walk.simps) simp

lemma spec_walk_del:
  "i < length a \<Longrightarrow> j < length b \<Longrightarrow> a ! i \<noteq> b ! j \<Longrightarrow>
   spec_lcs a b i (j + 1) \<le> spec_lcs a b (i + 1) j \<Longrightarrow>
   spec_walk a b i j = Del (a ! i) # spec_walk a b (i + 1) j"
  by (subst spec_walk.simps) simp

lemma spec_walk_add:
  "i < length a \<Longrightarrow> j < length b \<Longrightarrow> a ! i \<noteq> b ! j \<Longrightarrow>
   \<not> spec_lcs a b i (j + 1) \<le> spec_lcs a b (i + 1) j \<Longrightarrow>
   spec_walk a b i j = Add (b ! j) # spec_walk a b i (j + 1)"
  by (subst spec_walk.simps) simp

lemmas spec_walk_steps = spec_walk_context spec_walk_del spec_walk_add

lemma spec_walk_cases [consumes 2, case_names same delete insert]:
  assumes "i < length a" "j < length b"
  obtains "a ! i = b ! j" "spec_walk a b i j = Context (a ! i) (b ! j) # spec_walk a b (i + 1) (j + 1)"
  | "a ! i \<noteq> b ! j" "spec_lcs a b i (j + 1) \<le> spec_lcs a b (i + 1) j"
      "spec_walk a b i j = Del (a ! i) # spec_walk a b (i + 1) j"
  | "a ! i \<noteq> b ! j" "\<not> spec_lcs a b i (j + 1) \<le> spec_lcs a b (i + 1) j"
      "spec_walk a b i j = Add (b ! j) # spec_walk a b i (j + 1)"
  using assms spec_walk_steps [of i a j b] by blast

lemma walk_eq_spec:
  assumes "\<And>r c. r \<le> length a \<Longrightarrow> c \<le> length b \<Longrightarrow> lcs ! r ! c = spec_lcs a b r c"
  shows "(case main_loop a b lcs ops i j of (ops', i', j') \<Rightarrow> add_loop b (del_loop a ops' i') j')
         = ops @ spec_walk a b i j"
  using assms
proof (induction a b lcs ops i j rule: main_loop.induct)
  case (1 a b lcs ops i j)
  note tbl = "1.prems"
  show ?case
  proof (cases "i < length a \<and> j < length b")
    case False
    then show ?thesis
      by (simp add: main_loop_stop spec_walk_stop del_loop_eq add_loop_eq)
  next
    case inside: True
    then have i: "i < length a" and j: "j < length b" by auto
    show ?thesis
    proof (cases "a ! i = b ! j")
      case True
      show ?thesis
        using "1.IH"(1) [OF inside True tbl]
        by (simp add: main_loop_context [OF i j True] spec_walk_context [OF i j True])
    next
      case neq: False
      have cells: "lcs ! (i + 1) ! j = spec_lcs a b (i + 1) j"
        "lcs ! i ! (j + 1) = spec_lcs a b i (j + 1)"
        using inside by (simp_all add: tbl)
      show ?thesis
      proof (cases "lcs ! i ! (j + 1) \<le> lcs ! (i + 1) ! j")
        case True
        then have "spec_lcs a b i (j + 1) \<le> spec_lcs a b (i + 1) j"
          using cells by simp
        then show ?thesis
          using "1.IH"(2) [OF inside neq True tbl]
          by (simp add: main_loop_del [OF i j neq True] spec_walk_del [OF i j neq])
      next
        case False
        then have "\<not> spec_lcs a b i (j + 1) \<le> spec_lcs a b (i + 1) j"
          using cells by simp
        then show ?thesis
          using "1.IH"(3) [OF inside neq False tbl]
          by (simp add: main_loop_add [OF i j neq False] spec_walk_add [OF i j neq])
      qed
    qed
  qed
qed

lemma computeOps_eq_spec: "computeOps leftText rightText = spec_diffLines leftText rightText"
  unfolding computeOps_def spec_diffLines_def Let_def
  using walk_eq_spec [of "split_lines leftText" "split_lines rightText"
      "fill_table (split_lines leftText) (split_lines rightText)
         (length (split_lines leftText)) (length (split_lines rightText))
         (init_table (length (split_lines leftText)) (length (split_lines rightText)))" "[]" 0 0]
  by (simp add: filled_table)

lemma left_lines_Del: "left_lines (map Del xs) = xs"
  by (induction xs) auto

lemma left_lines_Add: "left_lines (map Add xs) = []"
  by (induction xs) auto

lemma right_lines_Del: "right_lines (map Del xs) = []"
  by (induction xs) auto

lemma right_lines_Add: "right_lines (map Add xs) = xs"
  by (induction xs) auto

lemma spec_walk_left: "left_lines (spec_walk a b i j) = drop i a"
proof (induction a b i j rule: spec_walk.induct)
  case (1 a b i j)
  show ?case
  proof (cases "i < length a \<and> j < length b")
    case False
    then show ?thesis
      by (auto simp: spec_walk_stop left_lines_append left_lines_Del left_lines_Add)
  next
    case True
    then have i: "i < length a" and j: "j < length b" by auto
    from i j show ?thesis
    proof (cases rule: spec_walk_cases)
      case same
      then show ?thesis using "1.IH"(1) [OF True] Cons_nth_drop_Suc [OF i] by simp
    next
      case delete
      then show ?thesis using "1.IH"(2) [OF True] Cons_nth_drop_Suc [OF i] by simp
    next
      case insert
      then show ?thesis using "1.IH"(3) [OF True] Cons_nth_drop_Suc [OF i] by simp
    qed
  qed
qed

lemma spec_walk_right: "right_lines (spec_walk a b i j) = drop j b"
proof (induction a b i j rule: spec_walk.induct)
  case (1 a b i j)
  show ?case
  proof (cases "i < length a \<and> j < length b")
    case False
    then show ?thesis
      by (auto simp: spec_walk_stop right_lines_append right_lines_Del right_lines_Add)
  next
    case True
    then have i: "i < length a" and j: "j < length b" by auto
    from i j show ?thesis
    proof (cases rule: spec_walk_cases)
      case same
      then show ?thesis using "1.IH"(1) [OF True] Cons_nth_drop_Suc [OF j] by simp
    next
      case delete
      then show ?thesis using "1.IH"(2) [OF True] Cons_nth_drop_Suc [OF j] by simp
    next
      case insert
      then show ?thesis using "1.IH"(3) [OF True] Cons_nth_drop_Suc [OF j] by simp
    qed
  qed
qed

lemma spec_walk_context_equal: "list_all context_equal (spec_walk a b i j)"
proof (induction a b i j rule: spec_walk.induct)
  case (1 a b i j)
  show ?case
  proof (cases "i < length a \<and> j < length b")
    case False
    then show ?thesis
      by (auto simp: spec_walk_stop list_all_iff)
  next
    case True
    then have i: "i < length a" and j: "j < length b" by auto
    from i j show ?thesis
    proof (cases rule: spec_walk_cases)
      case same
      then show ?thesis using "1.IH"(1) [OF True]  by simp
    next
      case delete
      then show ?thesis using "1.IH"(2) [OF True]  by simp
    next
      case insert
      then show ?thesis using "1.IH"(3) [OF True]  by simp
    qed
  qed
qed

lemma filter_context_Del: "filter is_context (map Del xs) = []"
  by (induction xs) auto

lemma filter_context_Add: "filter is_context (map Add xs) = []"
  by (induction xs) auto

lemma spec_walk_context_count: "context_count (spec_walk a b i j) = spec_lcs a b i j"
proof (induction a b i j rule: spec_walk.induct)
  case (1 a b i j)
  show ?case
  proof (cases "i < length a \<and> j < length b")
    case False
    then have "spec_lcs a b i j = 0"
      by (auto simp: spec_lcs_def lcs_length_Nil2)
    then show ?thesis
      using False
      by (auto simp: spec_walk_stop context_count_def filter_context_Del filter_context_Add)
  next
    case True
    then have i: "i < length a" and j: "j < length b" by auto
    from i j show ?thesis
    proof (cases rule: spec_walk_cases)
      case same
      then show ?thesis
        using "1.IH"(1) [OF True] spec_lcs_step [OF i j] by (simp add: context_count_def)
    next
      case delete
      then show ?thesis
        using "1.IH"(2) [OF True] spec_lcs_step [OF i j] by (simp add: context_count_def)
    next
      case insert
      then show ?thesis
        using "1.IH"(3) [OF True] spec_lcs_step [OF i j] by (simp add: context_count_def)
    qed
  qed
qed

lemma lcs_length_upper:
  "subseq zs xs \<Longrightarrow> subseq zs ys \<Longrightarrow> length zs \<le> lcs_length xs ys"
proof (induction xs ys arbitrary: zs rule: lcs_length.induct)
  case (1 ys)
  then show ?case by simp
next
  case (2 x xs)
  then show ?case by simp
next
  case (3 x xs y ys)
  show ?case
  proof (cases zs)
    case Nil
    then show ?thesis by simp
  next
    case (Cons z zs')
    show ?thesis
    proof (cases "x = y")
      case True
      have "subseq zs' xs" "subseq zs' ys"
        using "3.prems" Cons True by (auto split: if_splits dest: subseq_Cons')
      then have "length zs' \<le> lcs_length xs ys"
        using "3.IH"(1) [OF True] by blast
      then show ?thesis using Cons True by simp
    next
      case False
      show ?thesis
      proof (cases "z = x")
        case True
        then have "subseq zs ys"
          using "3.prems"(2) Cons False by (auto split: if_splits)
        then have "length zs \<le> lcs_length (x # xs) ys"
          using "3.IH"(3) [OF False] "3.prems"(1) by blast
        then show ?thesis using False by simp
      next
        case zx: False
        then have "subseq zs xs"
          using "3.prems"(1) Cons by (auto split: if_splits)
        then have "length zs \<le> lcs_length xs (y # ys)"
          using "3.IH"(2) [OF False] "3.prems"(2) by blast
        then show ?thesis using False by simp
      qed
    qed
  qed
qed

lemma context_lines_subseq_left: "subseq (left_lines (filter is_context ops)) (left_lines ops)"
  by (induction ops rule: left_lines.induct) auto

lemma context_lines_subseq_right:
  "list_all context_equal ops \<Longrightarrow> subseq (left_lines (filter is_context ops)) (right_lines ops)"
  by (induction ops rule: left_lines.induct) auto

lemma length_context_lines: "length (left_lines (filter is_context ops)) = context_count ops"
  unfolding context_count_def by (induction ops rule: left_lines.induct) auto

lemma length_left_lines:
  "length (left_lines ops) + length (right_lines ops) = 2 * context_count ops + change_count ops"
  unfolding context_count_def change_count_def
  by (induction ops rule: left_lines.induct) auto

lemma valid_script_context_count:
  assumes "valid_script a b ops"
  shows "context_count ops \<le> lcs_length a b"
  using assms lcs_length_upper [OF context_lines_subseq_left [of ops] context_lines_subseq_right [of ops]]
  by (simp add: valid_script_def length_context_lines)

subsection \<open>Claims about the diff engine\<close>

text \<open>
  C1. For every pair of input texts the edit script of \<open>computeOps\<close> is valid: keeping
  the right line of every context op, dropping the deletes and emitting the inserts, in
  order, gives the right line sequence exactly; keeping the left line of every context op
  and the lines of the deletes gives the left line sequence; and the two lines of every
  context op are equal.
\<close>

theorem computeOps_valid:
  "right_lines (computeOps leftText rightText) = split_lines rightText \<and>
   left_lines (computeOps leftText rightText) = split_lines leftText \<and>
   list_all context_equal (computeOps leftText rightText)"
  by (simp add: computeOps_eq_spec spec_diffLines_def spec_walk_left spec_walk_right
      spec_walk_context_equal)

theorem computeOps_valid_witness:
  "right_lines (computeOps [CHR ''a'', newline, CHR ''b''] [CHR ''a'', newline, CHR ''c'']) = [''a'', ''c''] \<and>
   left_lines (computeOps [CHR ''a'', newline, CHR ''b''] [CHR ''a'', newline, CHR ''c'']) = [''a'', ''b''] \<and>
   computeOps [CHR ''a'', newline, CHR ''b''] [CHR ''a'', newline, CHR ''c'']
     = [Context ''a'' ''a'', Del ''b'', Add ''c'']"
proof -
  have l: "split_lines [CHR ''a'', newline, CHR ''b''] = [''a'', ''b'']"
    and r: "split_lines [CHR ''a'', newline, CHR ''c''] = [''a'', ''c'']"
    by code_simp+
  have "computeOps [CHR ''a'', newline, CHR ''b''] [CHR ''a'', newline, CHR ''c'']
     = [Context ''a'' ''a'', Del ''b'', Add ''c'']"
    by code_simp
  then show ?thesis
    using computeOps_valid [of "[CHR ''a'', newline, CHR ''b'']" "[CHR ''a'', newline, CHR ''c'']"]
    unfolding l r by simp
qed

text \<open>
  C2. The edit script of \<open>computeOps\<close> is a valid script with the least number of
  deletes and inserts among all valid scripts from \<open>a\<close> to \<open>b\<close>; its number of context
  ops is the length of a longest common subsequence of \<open>a\<close> and \<open>b\<close>: some common
  subsequence has that length, and none is longer.
\<close>

theorem computeOps_minimal:
  "valid_script (split_lines leftText) (split_lines rightText) (computeOps leftText rightText) \<and>
   (valid_script (split_lines leftText) (split_lines rightText) ops \<longrightarrow>
      change_count (computeOps leftText rightText) \<le> change_count ops) \<and>
   (\<exists>cs. subseq cs (split_lines leftText) \<and> subseq cs (split_lines rightText) \<and>
      length cs = context_count (computeOps leftText rightText)) \<and>
   (subseq zs (split_lines leftText) \<and> subseq zs (split_lines rightText) \<longrightarrow>
      length zs \<le> context_count (computeOps leftText rightText))"
proof -
  let ?a = "split_lines leftText" and ?b = "split_lines rightText"
  let ?s = "computeOps leftText rightText"
  have s: "?s = spec_walk ?a ?b 0 0"
    by (simp add: computeOps_eq_spec spec_diffLines_def)
  have valid: "valid_script ?a ?b ?s"
    by (simp add: s valid_script_def spec_walk_left spec_walk_right spec_walk_context_equal)
  have count: "context_count ?s = lcs_length ?a ?b"
    by (simp add: s spec_walk_context_count spec_lcs_def)
  have least: "change_count ?s \<le> change_count ops" if v: "valid_script ?a ?b ops"
  proof -
    have "context_count ops \<le> context_count ?s"
      using valid_script_context_count [OF v] count by simp
    moreover have "2 * context_count ops + change_count ops = length ?a + length ?b"
      using v length_left_lines [of ops] by (simp add: valid_script_def)
    moreover have "2 * context_count ?s + change_count ?s = length ?a + length ?b"
      using valid length_left_lines [of ?s] by (simp add: valid_script_def)
    ultimately show ?thesis by linarith
  qed
  have common: "\<exists>cs. subseq cs ?a \<and> subseq cs ?b \<and> length cs = context_count ?s"
  proof (intro exI conjI)
    show "subseq (left_lines (filter is_context ?s)) ?a"
      using valid context_lines_subseq_left [of ?s] by (simp add: valid_script_def)
    show "subseq (left_lines (filter is_context ?s)) ?b"
      using valid context_lines_subseq_right [of ?s] by (simp add: valid_script_def)
    show "length (left_lines (filter is_context ?s)) = context_count ?s"
      by (rule length_context_lines)
  qed
  have longest: "length zs \<le> context_count ?s" if "subseq zs ?a \<and> subseq zs ?b"
    using that lcs_length_upper [of zs ?a ?b] count by simp
  show ?thesis
    using valid least common longest by blast
qed

theorem computeOps_minimal_witness:
  "valid_script (split_lines [CHR ''a'', newline, CHR ''b'']) (split_lines [CHR ''a'', newline, CHR ''c''])
     [Context ''a'' ''a'', Add ''c'', Del ''b''] \<and>
   change_count (computeOps [CHR ''a'', newline, CHR ''b''] [CHR ''a'', newline, CHR ''c''])
     \<le> change_count [Context ''a'' ''a'', Add ''c'', Del ''b''] \<and>
   subseq [''a''] (split_lines [CHR ''a'', newline, CHR ''b'']) \<and>
   subseq [''a''] (split_lines [CHR ''a'', newline, CHR ''c'']) \<and>
   length [''a''] \<le> context_count (computeOps [CHR ''a'', newline, CHR ''b''] [CHR ''a'', newline, CHR ''c''])"
proof -
  have l: "split_lines [CHR ''a'', newline, CHR ''b''] = [''a'', ''b'']"
    and r: "split_lines [CHR ''a'', newline, CHR ''c''] = [''a'', ''c'']"
    by code_simp+
  have v: "valid_script (split_lines [CHR ''a'', newline, CHR ''b'']) (split_lines [CHR ''a'', newline, CHR ''c''])
     [Context ''a'' ''a'', Add ''c'', Del ''b'']"
    unfolding l r by (simp add: valid_script_def)
  have s: "subseq [''a''] (split_lines [CHR ''a'', newline, CHR ''b'']) \<and>
    subseq [''a''] (split_lines [CHR ''a'', newline, CHR ''c''])"
    unfolding l r by simp
  show ?thesis
    using computeOps_minimal [of "[CHR ''a'', newline, CHR ''b'']" "[CHR ''a'', newline, CHR ''c'']"
        "[Context ''a'' ''a'', Add ''c'', Del ''b'']" "[''a'']"] v s
    by blast
qed

text \<open>
  C3. \<open>computeOps\<close> is the walk the specification prescribes: from \<open>(0, 0)\<close> a context
  op and both indices advanced where \<open>a[i] = b[j]\<close>; otherwise a delete, advancing \<open>i\<close>,
  exactly when \<open>lcs[i+1][j] \<ge> lcs[i][j+1]\<close>, and an insert, advancing \<open>j\<close>, when not;
  then the rest of \<open>a\<close> as deletes and the rest of \<open>b\<close> as inserts. The script is a
  function of the two texts, so equal inputs give equal scripts.
\<close>

theorem computeOps_is_spec_walk:
  "computeOps leftText rightText = spec_diffLines leftText rightText"
  by (rule computeOps_eq_spec)

theorem computeOps_is_spec_walk_witness:
  "computeOps [CHR ''a'', newline, CHR ''b''] [CHR ''a'', newline, CHR ''c'']
     = [Context ''a'' ''a'', Del ''b'', Add ''c''] \<and>
   spec_diffLines [CHR ''a'', newline, CHR ''b''] [CHR ''a'', newline, CHR ''c'']
     = [Context ''a'' ''a'', Del ''b'', Add ''c'']"
proof -
  have "spec_diffLines [CHR ''a'', newline, CHR ''b''] [CHR ''a'', newline, CHR ''c'']
     = [Context ''a'' ''a'', Del ''b'', Add ''c'']"
    by code_simp
  then show ?thesis
    using computeOps_is_spec_walk [of "[CHR ''a'', newline, CHR ''b'']" "[CHR ''a'', newline, CHR ''c'']"]
    by simp
qed

section \<open>Properties of the split projection\<close>


lemma opsToSplitRows_snoc: "opsToSplitRows (ops @ [op]) = push_op (opsToSplitRows ops) op"
  by (simp add: opsToSplitRows_def)

lemma opsToSplitRows_Nil: "opsToSplitRows [] = []"
  by (simp add: opsToSplitRows_def)

lemma row_left_texts_append:
  "row_left_texts (xs @ ys) = row_left_texts xs @ row_left_texts ys"
  by (simp add: row_left_texts_def)

lemma row_right_texts_append:
  "row_right_texts (xs @ ys) = row_right_texts xs @ row_right_texts ys"
  by (simp add: row_right_texts_def)

lemma row_left_texts_snoc:
  "rtype x \<noteq> RAdd \<Longrightarrow> row_left_texts (xs @ [x]) = row_left_texts xs @ [left x]"
  by (simp add: row_left_texts_def)

lemma row_right_texts_snoc_del:
  "rtype x = RDel \<Longrightarrow> row_right_texts (xs @ [x]) = row_right_texts xs"
  by (simp add: row_right_texts_def)

lemma row_left_texts_push:
  "row_left_texts (push_op rows op) = row_left_texts rows @ map Some (left_lines [op])"
proof (cases op)
  case (Add r)
  show ?thesis
  proof (cases "rows \<noteq> [] \<and> rtype (last rows) = RDel \<and> falsy (right (last rows))")
    case True
    then have eq: "butlast rows @ [last rows] = rows" by simp
    have "row_left_texts rows = row_left_texts (butlast rows @ [last rows])"
      by (simp only: eq)
    also have "\<dots> = row_left_texts (butlast rows) @ [left (last rows)]"
      using True by (intro row_left_texts_snoc) simp
    finally have "row_left_texts rows = row_left_texts (butlast rows) @ [left (last rows)]" .
    then show ?thesis
      using True Add by (simp add: row_left_texts_append) (simp add: row_left_texts_def)
  next
    case False
    then show ?thesis
      using Add by (auto simp: row_left_texts_def)
  qed
qed (simp_all add: row_left_texts_def)

lemma row_right_texts_push:
  "row_right_texts (push_op rows op) = row_right_texts rows @ map Some (right_lines [op])"
proof (cases op)
  case (Add r)
  show ?thesis
  proof (cases "rows \<noteq> [] \<and> rtype (last rows) = RDel \<and> falsy (right (last rows))")
    case True
    then have eq: "butlast rows @ [last rows] = rows" by simp
    have "row_right_texts rows = row_right_texts (butlast rows @ [last rows])"
      by (simp only: eq)
    also have "\<dots> = row_right_texts (butlast rows)"
      using True by (intro row_right_texts_snoc_del) simp
    finally have "row_right_texts rows = row_right_texts (butlast rows)" .
    then show ?thesis
      using True Add by (simp add: row_right_texts_append) (simp add: row_right_texts_def)
  next
    case False
    then show ?thesis
      using Add by (auto simp: row_right_texts_def)
  qed
qed (simp_all add: row_right_texts_def)

lemma left_lines_snoc: "left_lines (ops @ [op]) = left_lines ops @ left_lines [op]"
  by (rule left_lines_append)

lemma right_lines_snoc: "right_lines (ops @ [op]) = right_lines ops @ right_lines [op]"
  by (rule right_lines_append)

lemma rows_left: "row_left_texts (opsToSplitRows ops) = map Some (left_lines ops)"
proof (induction ops rule: rev_induct)
  case Nil
  then show ?case by (simp add: opsToSplitRows_Nil row_left_texts_def)
next
  case (snoc op ops)
  then show ?case
    by (simp only: opsToSplitRows_snoc row_left_texts_push left_lines_snoc map_append)
qed

lemma rows_right: "row_right_texts (opsToSplitRows ops) = map Some (right_lines ops)"
proof (induction ops rule: rev_induct)
  case Nil
  then show ?case by (simp add: opsToSplitRows_Nil row_right_texts_def)
next
  case (snoc op ops)
  then show ?case
    by (simp only: opsToSplitRows_snoc row_right_texts_push right_lines_snoc map_append)
qed

lemma coalesced_snoc:
  "coalesced (rows @ [row]) \<longleftrightarrow>
     coalesced rows \<and> (rows = [] \<or> \<not> (open_del (last rows) \<and> rtype row = RAdd))"
  by (induction rows rule: coalesced.induct) auto

lemma coalesced_butlast: "coalesced rows \<Longrightarrow> coalesced (butlast rows)"
  by (induction rows rule: coalesced.induct) auto

lemma coalesced_push: "coalesced rows \<Longrightarrow> coalesced (push_op rows op)"
proof (cases op)
  case (Add r)
  assume c: "coalesced rows"
  show ?thesis
  proof (cases "rows \<noteq> [] \<and> rtype (last rows) = RDel \<and> falsy (right (last rows))")
    case True
    then show ?thesis
      using Add coalesced_butlast [OF c] by (simp add: coalesced_snoc)
  next
    case False
    then show ?thesis
      using Add c by (auto simp: coalesced_snoc open_del_def)
  qed
qed (auto simp: coalesced_snoc)

lemma opsToSplitRows_coalesced: "coalesced (opsToSplitRows ops)"
  by (induction ops rule: rev_induct)
    (simp_all add: opsToSplitRows_Nil opsToSplitRows_snoc coalesced_push)



lemma both_set_push:
  "list_all both_set rows \<Longrightarrow>
   list_all both_set (push_op rows op)"
proof (cases op)
  case (Add r)
  assume inv: "list_all both_set rows"
  show ?thesis
  proof (cases "rows \<noteq> [] \<and> rtype (last rows) = RDel \<and> falsy (right (last rows))")
    case True
    then have eq: "butlast rows @ [last rows] = rows" by simp
    have "list_all both_set (butlast rows @ [last rows])"
      using inv by (simp only: eq)
    then have "list_all both_set (butlast rows)" "both_set (last rows)"
      by simp_all
    then show ?thesis
      using True Add by (simp add: both_set_def)
  next
    case False
    then show ?thesis
      using Add inv by (auto simp: both_set_def)
  qed
qed (auto simp: both_set_def)

lemma opsToSplitRows_both_set:
  "list_all both_set (opsToSplitRows ops)"
  by (induction ops rule: rev_induct)
    (simp_all add: opsToSplitRows_Nil opsToSplitRows_snoc both_set_push)



text \<open>
  The projection itself copies the two sides of a context op as they are: a script that no
  run of \<open>computeOps\<close> gives, with a context op of unequal sides, has a context row of
  unequal sides.
\<close>

lemma opsToSplitRows_copies_context:
  "opsToSplitRows [Context ''a'' ''b''] =
     [\<lparr>rtype = RContext, left = Some ''a'', right = Some ''b''\<rparr>]"
  by (simp add: opsToSplitRows_def)

text \<open>
  C6. An insert that follows an open del row (a del row whose right side is still empty)
  merges into that row, which becomes a change row with the inserted line on its right; an
  insert with no such predecessor becomes a new add row. So in the rows of any script no
  open del row is immediately followed by an add row.
\<close>

theorem opsToSplitRows_coalescing:
  "opsToSplitRows (ops @ [Add r]) =
     (if opsToSplitRows ops \<noteq> [] \<and> open_del (last (opsToSplitRows ops))
      then butlast (opsToSplitRows ops) @
             [(last (opsToSplitRows ops))\<lparr>rtype := RChange, right := Some r\<rparr>]
      else opsToSplitRows ops @ [\<lparr>rtype = RAdd, left = Some [], right = Some r\<rparr>]) \<and>
   coalesced (opsToSplitRows ops)"
  by (simp add: opsToSplitRows_snoc open_del_def opsToSplitRows_coalesced)

theorem opsToSplitRows_coalescing_witness:
  "opsToSplitRows ([Context ''a'' ''a'', Del ''b''] @ [Add ''c'']) =
     [\<lparr>rtype = RContext, left = Some ''a'', right = Some ''a''\<rparr>,
      \<lparr>rtype = RChange, left = Some ''b'', right = Some ''c''\<rparr>] \<and>
   opsToSplitRows ([Context ''a'' ''a''] @ [Add ''c'']) =
     [\<lparr>rtype = RContext, left = Some ''a'', right = Some ''a''\<rparr>,
      \<lparr>rtype = RAdd, left = Some [], right = Some ''c''\<rparr>] \<and>
   coalesced (opsToSplitRows [Context ''a'' ''a'', Del ''b''])"
proof -
  have 1: "opsToSplitRows [Context ''a'' ''a'', Del ''b''] =
     [\<lparr>rtype = RContext, left = Some ''a'', right = Some ''a''\<rparr>,
      \<lparr>rtype = RDel, left = Some ''b'', right = Some []\<rparr>]"
    and 2: "opsToSplitRows [Context ''a'' ''a''] =
     [\<lparr>rtype = RContext, left = Some ''a'', right = Some ''a''\<rparr>]"
    by (simp_all add: opsToSplitRows_def)
  show ?thesis
    using opsToSplitRows_coalescing [of "[Context ''a'' ''a'', Del ''b'']" "''c''"]
      opsToSplitRows_coalescing [of "[Context ''a'' ''a'']" "''c''"]
    unfolding 1 2 by (simp add: open_del_def)
qed

text \<open>
  C10. The split projection keeps the content and the order of the script: the left texts
  of the context, del and change rows, in row order, are the left lines of the context and
  delete ops, in script order; the right texts of the context, add and change rows are the
  right lines of the context and insert ops. No line is dropped, duplicated or reordered.
\<close>

theorem opsToSplitRows_preserves_lines:
  "row_left_texts (opsToSplitRows ops) = map Some (left_lines ops) \<and>
   row_right_texts (opsToSplitRows ops) = map Some (right_lines ops)"
  by (simp add: rows_left rows_right)

theorem opsToSplitRows_preserves_lines_witness:
  "row_left_texts (opsToSplitRows [Context ''a'' ''a'', Del ''b'', Add ''c'', Add ''d''])
     = [Some ''a'', Some ''b''] \<and>
   row_right_texts (opsToSplitRows [Context ''a'' ''a'', Del ''b'', Add ''c'', Add ''d''])
     = [Some ''a'', Some ''c'', Some ''d'']"
  using opsToSplitRows_preserves_lines [of "[Context ''a'' ''a'', Del ''b'', Add ''c'', Add ''d'']"]
  by simp

section \<open>Properties of the normalizer\<close>

lemma first_error_None: "first_error rs = None \<longleftrightarrow> (\<forall>r \<in> set rs. \<exists>x. r = Inr x)"
  by (induction rs rule: first_error.induct) auto

lemma first_error_Some: "(\<exists>e. first_error rs = Some e) \<longleftrightarrow> (\<exists>r \<in> set rs. \<exists>e. r = Inl e)"
  by (induction rs rule: first_error.induct) auto

lemma serialize_throws: "(\<exists>e. serialize num indent v = Inl e) \<longleftrightarrow> has_bigint v"
proof (induction v arbitrary: indent)
  case (JArr vs)
  have "(\<exists>e. serialize num indent (JArr vs) = Inl e)
        \<longleftrightarrow> (\<exists>e. first_error (map (serialize num (indent @ gap)) vs) = Some e)"
    by (auto simp: Let_def split: option.splits)
  also have "\<dots> \<longleftrightarrow> (\<exists>v \<in> set vs. \<exists>e. serialize num (indent @ gap) v = Inl e)"
    unfolding first_error_Some by auto
  also have "\<dots> \<longleftrightarrow> (\<exists>v \<in> set vs. has_bigint v)"
    using JArr.IH by blast
  finally show ?case by (simp add: list_ex_iff)
next
  case (JObj kvs)
  have "(\<exists>e. serialize num indent (JObj kvs) = Inl e)
        \<longleftrightarrow> (\<exists>e. first_error (map snd (map (\<lambda>kv. (fst kv, serialize num (indent @ gap) (snd kv))) kvs)) = Some e)"
    by (auto simp: Let_def split: option.splits)
  also have "\<dots> \<longleftrightarrow> (\<exists>kv \<in> set kvs. \<exists>e. serialize num (indent @ gap) (snd kv) = Inl e)"
    unfolding first_error_Some by auto
  also have "\<dots> \<longleftrightarrow> (\<exists>kv \<in> set kvs. has_bigint (snd kv))"
  proof -
    have "(\<exists>e. serialize num (indent @ gap) (snd kv) = Inl e) \<longleftrightarrow> has_bigint (snd kv)"
      if "kv \<in> set kvs" for kv
    proof -
      obtain k v where kv: "kv = (k, v)" by (cases kv)
      have "v \<in> Basic_BNFs.snds kv" by (simp add: kv)
      from JObj.IH [OF that this] show ?thesis by (simp add: kv)
    qed
    then show ?thesis by blast
  qed
  finally show ?case by (simp add: list_ex_iff)
qed simp_all

lemma set_insert_index: "set (insert_index k v out) = insert (k, v) (set out)"
  by (induction out) (auto split: if_splits)

lemma set_property_values: "snd ` set (set_property out k v) \<subseteq> insert v (snd ` set out)"
  by (auto simp: set_property_def set_insert_index split: if_splits)

lemma foldl_set_property_values:
  "snd ` set (foldl (\<lambda>out key. set_property out key (f key)) init keys)
     \<subseteq> snd ` set init \<union> f ` set keys"
proof (induction keys arbitrary: init)
  case Nil
  then show ?case by simp
next
  case (Cons key keys)
  have "snd ` set (foldl (\<lambda>out key. set_property out key (f key)) (set_property init key (f key)) keys)
     \<subseteq> snd ` set (set_property init key (f key)) \<union> f ` set keys"
    by (rule Cons.IH)
  also have "\<dots> \<subseteq> insert (f key) (snd ` set init) \<union> f ` set keys"
    using set_property_values [of init key "f key"] by blast
  finally show ?case by auto
qed

lemma get_property_in:
  assumes "k \<in> set (object_keys kvs)"
  shows "(k, get_property kvs k) \<in> set kvs"
proof -
  from assms have "k \<in> fst ` set kvs" by (simp add: object_keys_def)
  then obtain v where "map_of kvs k = Some v"
    by (metis domD dom_map_of_conv_image_fst)
  then show ?thesis
    by (simp add: get_property_def map_of_SomeD)
qed

lemma has_bigint_sorted: "has_bigint (stableSortKeys v) \<Longrightarrow> has_bigint v"
proof (induction v rule: stableSortKeys.induct)
  case (1 vs)
  then show ?case by (auto simp: list_ex_iff)
next
  case (2 kvs)
  let ?f = "\<lambda>key. stableSortKeys (get_property kvs key)"
  from "2.prems" obtain x
    where x: "x \<in> snd ` set (foldl (\<lambda>out key. set_property out key (?f key)) [] (sort (object_keys kvs)))"
      and big: "has_bigint x"
    by (auto simp: list_ex_iff)
  from x foldl_set_property_values [of ?f "[]" "sort (object_keys kvs)"]
  obtain key where key: "key \<in> set (object_keys kvs)" and xk: "x = ?f key"
    by auto
  have "key \<in> set (sort (object_keys kvs))" using key by simp
  then have "has_bigint (get_property kvs key)"
    using "2.IH" big xk by blast
  moreover have "(key, get_property kvs key) \<in> set kvs"
    using key by (rule get_property_in)
  ultimately have "\<exists>kv \<in> set kvs. has_bigint (snd kv)"
    by (intro bexI [of _ "(key, get_property kvs key)"]) simp_all
  then show ?case
    by (simp add: list_ex_iff)
qed simp_all

lemma key_perm_eq_sorted: "key_perm_eq v w \<Longrightarrow> stableSortKeys v = stableSortKeys w"
proof (induction rule: key_perm_eq.induct)
  case (leaf v)
  then show ?case by simp
next
  case (arrays vs ws)
  then have "map stableSortKeys vs = map stableSortKeys ws"
    by (induction rule: list_all2_induct) auto
  then show ?case by simp
next
  case (objects kvs kws)
  have "mset (object_keys kvs) = mset (object_keys kws)"
    using objects.hyps(1-3) by (simp add: set_eq_iff_mset_eq_distinct)
  then have keys: "sort (object_keys kvs) = sort (object_keys kws)"
    by (metis properties_for_sort sorted_sort mset_sort)
  have vals: "stableSortKeys (get_property kvs k) = stableSortKeys (get_property kws k)"
    if "k \<in> set (sort (object_keys kvs))" for k
    using that objects.IH by simp
  have "foldl (\<lambda>out key. set_property out key (stableSortKeys (get_property kvs key)))
          [] (sort (object_keys kvs))
      = foldl (\<lambda>out key. set_property out key (stableSortKeys (get_property kws key)))
          [] (sort (object_keys kvs))"
    by (rule foldl_cong) (simp_all add: vals)
  then show ?case by (simp add: keys)
qed

lemma to_string_JArr:
  "to_string num (JArr vs) =
     (case first_error (map (join_element num) vs) of
        Some e \<Rightarrow> Inl e
      | None \<Rightarrow> Inr (join '','' (map (\<lambda>r. case r of Inr s \<Rightarrow> s | Inl e \<Rightarrow> [])
                                (map (join_element num) vs))))"
proof -
  have "(\<lambda>v. case v of JUndefined \<Rightarrow> Inr [] | JNull \<Rightarrow> Inr [] | _ \<Rightarrow> to_string num v)
        = join_element num"
    by (rule ext) (simp add: join_element_def)
  then show ?thesis by (simp add: Let_def)
qed

lemma key_perm_eq_to_string: "key_perm_eq v w \<Longrightarrow> to_string num v = to_string num w"
proof (induction rule: key_perm_eq.induct)
  case (leaf v)
  then show ?case by simp
next
  case (arrays vs ws)
  then have "map (join_element num) vs = map (join_element num) ws"
  proof (induction rule: list_all2_induct)
    case Nil
    then show ?case by simp
  next
    case (Cons v vs w ws)
    from Cons.hyps(1) have kpe: "key_perm_eq v w"
      and ts: "to_string num v = to_string num w" by auto
    from kpe ts have "join_element num v = join_element num w"
      by (cases rule: key_perm_eq.cases) (auto simp: join_element_def)
    then show ?case using Cons by simp
  qed
  then show ?case by (simp only: to_string_JArr)
next
  case (objects kvs kws)
  then show ?case by simp
qed

lemma toPrettyJSON_defined:
  "v \<noteq> JUndefined \<Longrightarrow>
   toPrettyJSON num v =
     (case JSON_stringify num (stableSortKeys v) of
        Inr text \<Rightarrow> Inr text
      | Inl e \<Rightarrow>
          (case JSON_stringify num v of
             Inr text \<Rightarrow> Inr text
           | Inl e' \<Rightarrow>
               (case String_js num v of
                  Inr text \<Rightarrow> Inr (Some text)
                | Inl e'' \<Rightarrow> Inl e'')))"
  by (cases v) (auto split: sum.splits)

lemma key_perm_eq_undefined: "key_perm_eq v w \<Longrightarrow> v = JUndefined \<longleftrightarrow> w = JUndefined"
  by (cases rule: key_perm_eq.cases) auto

lemma key_perm_eq_String_js:
  assumes "key_perm_eq v w"
  shows "String_js num v = String_js num w"
proof -
  have "to_string num v = to_string num w"
    using assms by (rule key_perm_eq_to_string)
  with assms show ?thesis
    by (cases rule: key_perm_eq.cases) auto
qed

lemma JSON_stringify_throws: "(\<exists>e. JSON_stringify num v = Inl e) \<longleftrightarrow> has_bigint v"
  unfolding JSON_stringify_def by (rule serialize_throws)

lemma toPrettyJSON_key_perm_eq:
  assumes "key_perm_eq v w"
  shows "toPrettyJSON num v = toPrettyJSON num w"
proof (cases "v = JUndefined")
  case True
  then show ?thesis using key_perm_eq_undefined [OF assms] by simp
next
  case False
  then have w: "w \<noteq> JUndefined" using key_perm_eq_undefined [OF assms] by simp
  have sorted: "stableSortKeys w = stableSortKeys v"
    using key_perm_eq_sorted [OF assms] by simp
  show ?thesis
  proof (cases "JSON_stringify num (stableSortKeys v)")
    case (Inr t)
    then show ?thesis
      by (simp add: toPrettyJSON_defined [OF False] toPrettyJSON_defined [OF w] sorted)
  next
    case (Inl e)
    then have "has_bigint (stableSortKeys v)"
      using JSON_stringify_throws [of num "stableSortKeys v"] by auto
    then have "has_bigint v" "has_bigint w"
      using has_bigint_sorted [of v] has_bigint_sorted [of w] sorted by simp_all
    then obtain e1 e2 where "JSON_stringify num v = Inl e1" "JSON_stringify num w = Inl e2"
      using JSON_stringify_throws [of num v] JSON_stringify_throws [of num w] by auto
    then show ?thesis
      using Inl key_perm_eq_String_js [OF assms, of num]
      by (simp add: toPrettyJSON_defined [OF False] toPrettyJSON_defined [OF w] sorted)
  qed
qed

text \<open>
  C4. Normalization does not depend on the order of keys: two values that are equal up to
  the order of the keys of their objects, at any depth, with arrays in the same order, have
  the same normalized text. \<open>toPrettyJSON\<close> is a function of its argument, so repeated
  calls on one value agree.
\<close>

theorem toPrettyJSON_key_order_invariant:
  "key_perm_eq v w \<Longrightarrow> toPrettyJSON num v = toPrettyJSON num w"
  by (rule toPrettyJSON_key_perm_eq)

theorem toPrettyJSON_key_order_invariant_witness:
  "key_perm_eq
     (JObj [(''b'', JNum (2::int)), (''a'', JObj [(''y'', JNull), (''x'', JArr [JBool True, JNum 1])])])
     (JObj [(''a'', JObj [(''x'', JArr [JBool True, JNum 1]), (''y'', JNull)]), (''b'', JNum 2)]) \<and>
   toPrettyJSON int_to_string
     (JObj [(''b'', JNum (2::int)), (''a'', JObj [(''y'', JNull), (''x'', JArr [JBool True, JNum 1])])])
   = toPrettyJSON int_to_string
     (JObj [(''a'', JObj [(''x'', JArr [JBool True, JNum 1]), (''y'', JNull)]), (''b'', JNum 2)])"
proof -
  have leaves: "key_perm_eq (JNum (2::int)) (JNum 2)" "key_perm_eq (JNull :: int jsval) JNull"
    "key_perm_eq (JBool True :: int jsval) (JBool True)" "key_perm_eq (JNum (1::int)) (JNum 1)"
    by (simp_all add: key_perm_eq.leaf)
  have arr: "key_perm_eq (JArr [JBool True, JNum (1::int)]) (JArr [JBool True, JNum 1])"
    by (rule key_perm_eq.arrays) (simp add: leaves)
  have inner: "key_perm_eq (JObj [(''y'', JNull), (''x'', JArr [JBool True, JNum (1::int)])])
     (JObj [(''x'', JArr [JBool True, JNum 1]), (''y'', JNull)])"
    by (rule key_perm_eq.objects) (auto simp: object_keys_def get_property_def leaves arr)
  have outer: "key_perm_eq
     (JObj [(''b'', JNum (2::int)), (''a'', JObj [(''y'', JNull), (''x'', JArr [JBool True, JNum 1])])])
     (JObj [(''a'', JObj [(''x'', JArr [JBool True, JNum 1]), (''y'', JNull)]), (''b'', JNum 2)])"
    by (rule key_perm_eq.objects) (auto simp: object_keys_def get_property_def leaves inner)
  show ?thesis
    using toPrettyJSON_key_order_invariant [OF outer, of int_to_string] outer by blast
qed

section \<open>Properties of the diff view\<close>




text \<open>
  C7, as the code has it. With the left value undefined and the right value the object
  \<open>{"x": 1}\<close>: the left text is the empty string, which splits to one empty line; the right
  text has three lines, the braces and the property between them; the script deletes the
  empty line and inserts the three lines; the unified view shows four lines.
\<close>

theorem DiffView_undefined_left:
  "toPrettyJSON int_to_string (JUndefined :: int jsval) = Inr (Some []) \<and>
   split_lines [] = [[]] \<and>
   toPrettyJSON int_to_string (JObj [(''x'', JNum 1)])
     = Inr (Some (''{'' @ [newline] @ ''  '' @ quote ''x'' @ '': 1'' @ [newline] @ ''}'')) \<and>
   computeOps [] (''{'' @ [newline] @ ''  '' @ quote ''x'' @ '': 1'' @ [newline] @ ''}'')
     = [Del [], Add ''{'', Add (''  '' @ quote ''x'' @ '': 1''), Add ''}''] \<and>
   DiffView int_to_string JUndefined (JObj [(''x'', JNum 1)]) Unified
     = Inr (True, UnifiedLines [''- '', ''+ {'', ''+   '' @ quote ''x'' @ '': 1'', ''+ }''])"
proof -
  have "toPrettyJSON int_to_string (JObj [(''x'', JNum 1)])
     = Inr (Some (''{'' @ [newline] @ ''  '' @ quote ''x'' @ '': 1'' @ [newline] @ ''}''))"
    by code_simp
  moreover have "computeOps [] (''{'' @ [newline] @ ''  '' @ quote ''x'' @ '': 1'' @ [newline] @ ''}'')
     = [Del [], Add ''{'', Add (''  '' @ quote ''x'' @ '': 1''), Add ''}'']"
    by code_simp
  moreover have "DiffView int_to_string JUndefined (JObj [(''x'', JNum 1)]) Unified
     = Inr (True, UnifiedLines [''- '', ''+ {'', ''+   '' @ quote ''x'' @ '': 1'', ''+ }''])"
    by code_simp
  ultimately show ?thesis by simp
qed

theorem DiffView_undefined_left_witness:
  "length (computeOps [] (''{'' @ [newline] @ ''  '' @ quote ''x'' @ '': 1'' @ [newline] @ ''}'')) = 4"
  using DiffView_undefined_left by simp

theorem DiffView_undefined_left_counterexample:
  "computeOps [] (''{'' @ [newline] @ ''  '' @ quote ''x'' @ '': 1'' @ [newline] @ ''}'')
     \<noteq> [Add (''  '' @ quote ''x'' @ '': 1'')] \<and>
   length (computeOps [] (''{'' @ [newline] @ ''  '' @ quote ''x'' @ '': 1'' @ [newline] @ ''}'')) \<noteq> 1 \<and>
   DiffView int_to_string JUndefined (JObj [(''x'', JNum 1)]) Unified
     \<noteq> Inr (True, UnifiedLines [''+ x: 1''])"
proof -
  have "computeOps [] (''{'' @ [newline] @ ''  '' @ quote ''x'' @ '': 1'' @ [newline] @ ''}'')
     = [Del [], Add ''{'', Add (''  '' @ quote ''x'' @ '': 1''), Add ''}'']"
    by code_simp
  moreover have "DiffView int_to_string JUndefined (JObj [(''x'', JNum 1)]) Unified
     \<noteq> Inr (True, UnifiedLines [''+ x: 1''])"
    by code_simp
  ultimately show ?thesis by simp
qed





text \<open>
  Values that are not JSON, which no caller in the program passes: for a function and for a
  symbol \<^verbatim>\<open>JSON.stringify\<close> throws nothing and returns undefined, and \<open>toPrettyJSON\<close>
  returns that undefined; for an array that holds a BigInt and a symbol both serializations
  throw and \<^verbatim>\<open>String(value)\<close> throws as well.
\<close>

lemma toPrettyJSON_outside_json:
  "toPrettyJSON num (JFunction src) = Inr None \<and>
   toPrettyJSON num (JSymbol d) = Inr None \<and>
   toPrettyJSON num (JArr [JBigInt i, JSymbol d]) = Inl TypeError \<and>
   DiffView num (JFunction src) JNull mode = Inl TypeError"
  by (simp add: DiffView_def JSON_stringify_def Let_def)

section \<open>Properties of the value tree renderer\<close>

lemma JsonNode_nodes:
  "(d, n) \<in> set (nodes_at depth (JsonNode num name v depth path dcd)) \<Longrightarrow>
   node_depth n = d \<and> (collapsed n \<longleftrightarrow> isContainer (node_value n) \<and> int d \<ge> dcd)"
proof (induction num name v depth path dcd arbitrary: d n rule: JsonNode.induct)
  case (1 num name vs depth path dcd)
  show ?case
  proof (cases "array_entries 0 vs = []")
    case True
    then show ?thesis using "1.prems" by (auto simp: Let_def)
  next
    case False
    from "1.prems" False consider
      "(d, n) = (depth, JsonNode num name (JArr vs) depth path dcd)"
      | kv where "kv \<in> set (array_entries 0 vs)"
        "(d, n) \<in> set (nodes_at (depth + 1) (JsonNode num None (snd kv) (depth + 1) (path @ ''.'' @ fst kv) dcd))"
      by (auto simp: Let_def)
    then show ?thesis
    proof cases
      case 1
      then show ?thesis using False by (auto simp: Let_def)
    next
      case 2
      then show ?thesis
        using "1.IH" [OF refl refl refl refl refl _ 2(1), of d n] False by simp
    qed
  qed
next
  case (2 num name kvs depth path dcd)
  show ?case
  proof (cases "kvs = []")
    case True
    then show ?thesis using "2.prems" by (auto simp: Let_def)
  next
    case False
    from "2.prems" False consider
      "(d, n) = (depth, JsonNode num name (JObj kvs) depth path dcd)"
      | kv where "kv \<in> set kvs"
        "(d, n) \<in> set (nodes_at (depth + 1) (JsonNode num (Some (fst kv)) (snd kv) (depth + 1) (path @ ''.'' @ fst kv) dcd))"
      by (auto simp: Let_def)
    then show ?thesis
    proof cases
      case 1
      then show ?thesis using False by (auto simp: Let_def)
    next
      case 2
      then show ?thesis
        using "2.IH" [OF refl refl refl refl refl _ 2(1), of d n] False by simp
    qed
  qed
qed auto

text \<open>
  C9. Every node of the tree that \<open>JsonView\<close> renders carries its nesting depth; a
  container (an array or an object) at depth \<open>d\<close> starts collapsed exactly when
  \<open>d \<ge> defaultCollapsedDepth\<close>, which is 0 when not given; a leaf never starts
  collapsed. For \<open>{"a": {"b": 1}}\<close> with \<open>defaultCollapsedDepth = 1\<close> the root starts
  expanded, its child \<open>a\<close> collapsed, and the leaf \<open>b\<close> has no collapsed state.
\<close>

theorem JsonView_default_collapsed:
  "((d, n) \<in> set (nodes_at 0 (JsonView num parse v defaultCollapsedDepth)) \<longrightarrow>
      node_depth n = d \<and>
      (isContainer (node_value n) \<longrightarrow>
         (collapsed n \<longleftrightarrow>
            int d \<ge> (case defaultCollapsedDepth of None \<Rightarrow> 0 | Some k \<Rightarrow> k))) \<and>
      (\<not> isContainer (node_value n) \<longrightarrow> \<not> collapsed n)) \<and>
   map (\<lambda>(d, n). (node_path n, d, collapsed n))
     (nodes_at 0 (JsonView num parse (JObj [(''a'', JObj [(''b'', JNum x)])]) (Some 1)))
     = [(''$'', 0, False), (''$.a'', 1, True), (''$.a.b'', 2, False)]"
proof -
  have general: "node_depth n = d \<and>
      (isContainer (node_value n) \<longrightarrow>
         (collapsed n \<longleftrightarrow>
            int d \<ge> (case defaultCollapsedDepth of None \<Rightarrow> 0 | Some k \<Rightarrow> k))) \<and>
      (\<not> isContainer (node_value n) \<longrightarrow> \<not> collapsed n)"
    if "(d, n) \<in> set (nodes_at 0 (JsonView num parse v defaultCollapsedDepth))"
    using JsonNode_nodes [OF that [unfolded JsonView_def Let_def]] by auto
  have example: "map (\<lambda>(d, n). (node_path n, d, collapsed n))
     (nodes_at 0 (JsonView num parse (JObj [(''a'', JObj [(''b'', JNum x)])]) (Some 1)))
     = [(''$'', 0, False), (''$.a'', 1, True), (''$.a.b'', 2, False)]"
    by (simp add: JsonView_def tryParse_def Let_def)
  show ?thesis using general example by blast
qed

theorem JsonView_default_collapsed_witness:
  "(1, Node ''$.a'' 1 (JObj [(''b'', JNum (1::int))]) True (Details False ''a: '' ''Object(1)'')
         [Node ''$.a.b'' 2 (JNum 1) False (LeafDiv ''b: '' (Inr ''1'')) []])
     \<in> set (nodes_at 0 (JsonView int_to_string (\<lambda>s. None)
                (JObj [(''a'', JObj [(''b'', JNum 1)])]) (Some 1))) \<and>
   collapsed (Node ''$.a'' 1 (JObj [(''b'', JNum (1::int))]) True (Details False ''a: '' ''Object(1)'')
         [Node ''$.a.b'' 2 (JNum 1) False (LeafDiv ''b: '' (Inr ''1'')) []]) \<and>
   map (\<lambda>(d, n). (node_path n, d, collapsed n))
     (nodes_at 0 (JsonView int_to_string (\<lambda>s. None) (JObj [(''a'', JObj [(''b'', JNum 1)])]) (Some 1)))
     = [(''$'', 0, False), (''$.a'', 1, True), (''$.a.b'', 2, False)]"
proof -
  have tree: "JsonView int_to_string (\<lambda>s. None) (JObj [(''a'', JObj [(''b'', JNum 1)])]) (Some 1)
    = Node ''$'' 0 (JObj [(''a'', JObj [(''b'', JNum 1)])]) False (Details True [] ''Object(1)'')
        [Node ''$.a'' 1 (JObj [(''b'', JNum 1)]) True (Details False ''a: '' ''Object(1)'')
          [Node ''$.a.b'' 2 (JNum 1) False (LeafDiv ''b: '' (Inr ''1'')) []]]"
    by code_simp
  have mem: "(1, Node ''$.a'' 1 (JObj [(''b'', JNum (1::int))]) True (Details False ''a: '' ''Object(1)'')
         [Node ''$.a.b'' 2 (JNum 1) False (LeafDiv ''b: '' (Inr ''1'')) []])
     \<in> set (nodes_at 0 (JsonView int_to_string (\<lambda>s. None)
                (JObj [(''a'', JObj [(''b'', JNum 1)])]) (Some 1)))"
    unfolding tree by simp
  show ?thesis
    using JsonView_default_collapsed [of 1
        "Node ''$.a'' 1 (JObj [(''b'', JNum (1::int))]) True (Details False ''a: '' ''Object(1)'')
         [Node ''$.a.b'' 2 (JNum 1) False (LeafDiv ''b: '' (Inr ''1'')) []]"
        int_to_string "\<lambda>s. None" "JObj [(''a'', JObj [(''b'', JNum 1)])]" "Some 1" 1] mem
    by simp
qed

end
